theory Spec2Isabelle
  imports Main
begin

section \<open>Python text\<close>

text \<open>
  The transport (\<^verbatim>\<open>src/claude_code_sdk/_internal/transport/subprocess_cli.py\<close>) works on
  Python \<^verbatim>\<open>str\<close> values. A \<^verbatim>\<open>str\<close> is a sequence of code points and \<^verbatim>\<open>len\<close> counts code
  points. Here a text is a \<^typ>\<open>string\<close> whose characters stand for the code points
  U+0000 to U+00FF, so \<^const>\<open>length\<close> is \<^verbatim>\<open>len\<close>. Text decoded from a JSON string may
  hold any code point (through \<^verbatim>\<open>\uXXXX\<close>) and is a list of code points.
\<close>

type_synonym unicode = "nat list"

definition dquote :: char where
  "dquote = CHR 0x22"

definition backslash :: char where
  "backslash = CHR 0x5C"

definition newline :: char where
  "newline = CHR 0x0A"

text \<open>
  \<^verbatim>\<open>str.strip()\<close> removes the characters for which \<^verbatim>\<open>str.isspace()\<close> holds from both ends.
  Below U+0100 these are U+0009 to U+000D, U+001C to U+0020, U+0085 and U+00A0.
\<close>

definition is_space :: "char \<Rightarrow> bool" where
  "is_space c =
     (let n = (of_char c :: nat)
      in (9 \<le> n \<and> n \<le> 13) \<or> (28 \<le> n \<and> n \<le> 32) \<or> n = 133 \<or> n = 160)"

definition strip :: "string \<Rightarrow> string" where
  "strip s = rev (dropWhile is_space (rev (dropWhile is_space s)))"

text \<open>
  \<^verbatim>\<open>str.lower()\<close> below U+0100: the letters A to Z and the Latin-1 capitals U+00C0 to
  U+00DE (without the multiplication sign U+00D7) move up by 32.
\<close>

definition lower_char :: "char \<Rightarrow> char" where
  "lower_char c =
     (let n = (of_char c :: nat)
      in if (65 \<le> n \<and> n \<le> 90) \<or> (192 \<le> n \<and> n \<le> 222 \<and> n \<noteq> 215)
         then char_of (n + 32) else c)"

definition lower :: "string \<Rightarrow> string" where
  "lower s = map lower_char s"

text \<open>\<^verbatim>\<open>sep.join(xs)\<close>.\<close>

fun join :: "string \<Rightarrow> string list \<Rightarrow> string" where
  "join sep [] = []"
| "join sep [x] = x"
| "join sep (x # y # ys) = x @ sep @ join sep (y # ys)"

text \<open>\<^verbatim>\<open>s.startswith(p)\<close> and \<^verbatim>\<open>p in s\<close>.\<close>

definition startswith :: "string \<Rightarrow> string \<Rightarrow> bool" where
  "startswith s p = (take (length p) s = p)"

fun contains :: "string \<Rightarrow> string \<Rightarrow> bool" where
  "contains [] p = (p = [])"
| "contains (c # s) p = (startswith (c # s) p \<or> contains s p)"

section \<open>The JSON decoder of the standard library\<close>

text \<open>
  \<^verbatim>\<open>json.loads\<close> belongs to the Python standard library, not to the repository. It is
  modelled after \<^verbatim>\<open>json/decoder.py\<close> and \<^verbatim>\<open>json/scanner.py\<close>: the same order of cases, the
  same whitespace (space, tab, line feed, carriage return), strict strings (no raw control
  character), the constants \<^verbatim>\<open>NaN\<close>, \<^verbatim>\<open>Infinity\<close> and \<^verbatim>\<open>-Infinity\<close>, and
  \<^verbatim>\<open>Extra data\<close> after the value as a failure. A float keeps its literal text (floating
  point is not modelled); an object is the \<^verbatim>\<open>dict\<close> built from the pairs in order, as an
  association list.

  \<^verbatim>\<open>json.loads\<close> ends in one of four ways: it returns a value, or it raises
  \<^verbatim>\<open>JSONDecodeError\<close>, \<^verbatim>\<open>ValueError\<close> (an integer literal with more digits than the
  interpreter converts) or \<^verbatim>\<open>RecursionError\<close> (arrays and objects nested deeper than the
  interpreter's stack allows). The last two are not \<^verbatim>\<open>JSONDecodeError\<close>. The two limits
  belong to the running interpreter and are parameters of the model:
  \<open>int_max_str_digits\<close> is \<^verbatim>\<open>sys.get_int_max_str_digits()\<close> (4300 by default, 0 for no
  limit; the limit is not applied to texts of at most 640 digits), and \<open>recursion_room\<close>
  is the number of nested arrays and objects that the decoder can still enter when
  \<^verbatim>\<open>json.loads\<close> is called.
\<close>

datatype decode_error = JSONDecodeError | ValueError | RecursionError

record interpreter =
  int_max_str_digits :: nat
  recursion_room :: nat

text \<open>An interpreter with the default digit limit, for the examples.\<close>

definition example_interpreter :: interpreter where
  "example_interpreter = \<lparr>int_max_str_digits = 4300, recursion_room = 900\<rparr>"

datatype json =
    JNull
  | JBool bool
  | JInt int
  | JFloat string
  | JString unicode
  | JArray "json list"
  | JObject "(unicode \<times> json) list"

fun is_container :: "json \<Rightarrow> bool" where
  "is_container (JArray _) = True"
| "is_container (JObject _) = True"
| "is_container _ = False"

definition is_json_ws :: "char \<Rightarrow> bool" where
  "is_json_ws c = (c \<in> set [CHR '' '', CHR 0x09, CHR 0x0A, CHR 0x0D])"

definition skip_ws :: "string \<Rightarrow> string" where
  "skip_ws s = dropWhile is_json_ws s"

definition is_digit :: "char \<Rightarrow> bool" where
  "is_digit c = (c \<in> set ''0123456789'')"

definition digit_val :: "char \<Rightarrow> nat" where
  "digit_val c = of_char c - 48"

definition hex_val :: "char \<Rightarrow> nat option" where
  "hex_val c =
     (let n = (of_char c :: nat)
      in if 48 \<le> n \<and> n \<le> 57 then Some (n - 48)
         else if 65 \<le> n \<and> n \<le> 70 then Some (n - 55)
         else if 97 \<le> n \<and> n \<le> 102 then Some (n - 87)
         else None)"

text \<open>\<^verbatim>\<open>_decode_uXXXX\<close>: four hexadecimal digits, or a failure.\<close>

definition decode_uXXXX :: "string \<Rightarrow> nat option" where
  "decode_uXXXX s =
     (case map hex_val (take 4 s) of
        [Some a, Some b, Some c, Some d] \<Rightarrow> Some (((a * 16 + b) * 16 + c) * 16 + d)
      | _ \<Rightarrow> None)"

text \<open>The table \<^verbatim>\<open>BACKSLASH\<close> of the one-letter escapes.\<close>

definition backslash_table :: "char \<Rightarrow> nat option" where
  "backslash_table e =
     (if e = dquote then Some 0x22
      else if e = backslash then Some 0x5C
      else if e = CHR ''/'' then Some 0x2F
      else if e = CHR ''b'' then Some 0x08
      else if e = CHR ''f'' then Some 0x0C
      else if e = CHR ''n'' then Some 0x0A
      else if e = CHR ''r'' then Some 0x0D
      else if e = CHR ''t'' then Some 0x09
      else None)"

definition cons_fst :: "'a \<Rightarrow> ('a list \<times> 'b) option \<Rightarrow> ('a list \<times> 'b) option" where
  "cons_fst x r = map_option (\<lambda>(xs, rest). (x # xs, rest)) r"

text \<open>
  \<^verbatim>\<open>scanstring\<close> (strict), called just after the opening quote: the decoded text and the
  input after the closing quote.
\<close>

fun scanstring :: "string \<Rightarrow> (unicode \<times> string) option" where
  "scanstring [] = None"
| "scanstring (c # s) =
     (if c = dquote then Some ([], s)
      else if c = backslash then
        (case s of
           [] \<Rightarrow> None
         | e # s' \<Rightarrow>
             if e = CHR ''u'' then
               (case decode_uXXXX s' of
                  None \<Rightarrow> None
                | Some uni \<Rightarrow>
                    if 0xD800 \<le> uni \<and> uni \<le> 0xDBFF \<and> take 2 (drop 4 s') = [backslash, CHR ''u''] then
                      (case decode_uXXXX (drop 6 s') of
                         None \<Rightarrow> None
                       | Some uni2 \<Rightarrow>
                           if 0xDC00 \<le> uni2 \<and> uni2 \<le> 0xDFFF
                           then cons_fst (0x10000 + ((uni - 0xD800) * 1024 + (uni2 - 0xDC00)))
                                  (scanstring (drop 10 s'))
                           else cons_fst uni (scanstring (drop 4 s')))
                    else cons_fst uni (scanstring (drop 4 s')))
             else
               (case backslash_table e of
                  None \<Rightarrow> None
                | Some ch \<Rightarrow> cons_fst ch (scanstring s')))
      else if (of_char c :: nat) < 32 then None
      else cons_fst (of_char c) (scanstring s))"

text \<open>
  \<^verbatim>\<open>NUMBER_RE\<close>, \<^verbatim>\<open>(-?(?:0|[1-9][0-9]*))(\.[0-9]+)?([eE][-+]?[0-9]+)?\<close>, as the three
  groups it matches: each function returns the matched text and the rest.
\<close>

definition int_part :: "string \<Rightarrow> (string \<times> string) option" where
  "int_part s =
     (let (sign, s1) = (case s of c # t \<Rightarrow> if c = CHR ''-'' then ([c], t) else ([], s) | [] \<Rightarrow> ([], s))
      in case s1 of
           [] \<Rightarrow> None
         | d # s2 \<Rightarrow>
             if \<not> is_digit d then None
             else if d = CHR ''0'' then Some (sign @ [d], s2)
             else Some (sign @ d # takeWhile is_digit s2, dropWhile is_digit s2))"

definition frac_part :: "string \<Rightarrow> string \<times> string" where
  "frac_part s =
     (case s of
        p # t \<Rightarrow>
          if p = CHR ''.'' \<and> takeWhile is_digit t \<noteq> []
          then (p # takeWhile is_digit t, dropWhile is_digit t) else ([], s)
      | [] \<Rightarrow> ([], s))"

definition exp_part :: "string \<Rightarrow> string \<times> string" where
  "exp_part s =
     (case s of
        e # t \<Rightarrow>
          if e = CHR ''e'' \<or> e = CHR ''E'' then
            (let (sg, t') = (case t of x # u \<Rightarrow> if x = CHR ''-'' \<or> x = CHR ''+'' then ([x], u) else ([], t)
                                     | [] \<Rightarrow> ([], t))
             in if takeWhile is_digit t' \<noteq> []
                then (e # sg @ takeWhile is_digit t', dropWhile is_digit t') else ([], s))
          else ([], s)
      | [] \<Rightarrow> ([], s))"

text \<open>
  \<^verbatim>\<open>int(text)\<close> for the text of the first group: the value, and the conversion with the
  interpreter's limit on the number of digits.
\<close>

definition int_of_text :: "string \<Rightarrow> int" where
  "int_of_text s =
     (case s of
        c # t \<Rightarrow>
          if c = CHR ''-'' then - int (foldl (\<lambda>a d. 10 * a + digit_val d) 0 t)
          else int (foldl (\<lambda>a d. 10 * a + digit_val d) 0 s)
      | [] \<Rightarrow> 0)"

definition str_digits_check_threshold :: nat where
  "str_digits_check_threshold = 640"

definition parse_int :: "interpreter \<Rightarrow> string \<Rightarrow> decode_error + json" where
  "parse_int I text =
     (let digits = length (filter is_digit text)
      in if int_max_str_digits I \<noteq> 0 \<and> digits > str_digits_check_threshold
            \<and> digits > int_max_str_digits I
         then Inl ValueError else Inr (JInt (int_of_text text)))"

definition match_number :: "string \<Rightarrow> (string \<times> string \<times> string \<times> string) option" where
  "match_number s =
     (case int_part s of
        None \<Rightarrow> None
      | Some (integer, s1) \<Rightarrow>
          (let (frac, s2) = frac_part s1; (ex, s3) = exp_part s2
           in Some (integer, frac, ex, s3)))"

text \<open>
  The cases of \<^verbatim>\<open>_scan_once\<close> that are neither a string, an object nor an array, in the
  order of the source: \<^verbatim>\<open>null\<close>, \<^verbatim>\<open>true\<close>, \<^verbatim>\<open>false\<close>, a number (a float when it has a
  fraction or an exponent, an integer otherwise), then the three constants.
\<close>

definition scan_atom :: "interpreter \<Rightarrow> string \<Rightarrow> decode_error + json \<times> string" where
  "scan_atom I s =
     (if startswith s ''null'' then Inr (JNull, drop 4 s)
      else if startswith s ''true'' then Inr (JBool True, drop 4 s)
      else if startswith s ''false'' then Inr (JBool False, drop 5 s)
      else (case match_number s of
              Some (integer, frac, ex, rest) \<Rightarrow>
                if frac \<noteq> [] \<or> ex \<noteq> [] then Inr (JFloat (integer @ frac @ ex), rest)
                else (case parse_int I integer of
                        Inl e \<Rightarrow> Inl e
                      | Inr v \<Rightarrow> Inr (v, rest))
            | None \<Rightarrow>
                if startswith s ''NaN'' then Inr (JFloat ''NaN'', drop 3 s)
                else if startswith s ''Infinity'' then Inr (JFloat ''Infinity'', drop 8 s)
                else if startswith s ''-Infinity'' then Inr (JFloat ''-Infinity'', drop 9 s)
                else Inl JSONDecodeError))"

text \<open>\<^verbatim>\<open>dict(pairs)\<close>: a later pair with the same key replaces the value in place.\<close>

fun dict_set :: "'k \<Rightarrow> 'v \<Rightarrow> ('k \<times> 'v) list \<Rightarrow> ('k \<times> 'v) list" where
  "dict_set k v [] = [(k, v)]"
| "dict_set k v (p # ps) = (if fst p = k then (k, v) # ps else p # dict_set k v ps)"

definition py_dict :: "('k \<times> 'v) list \<Rightarrow> ('k \<times> 'v) list" where
  "py_dict pairs = foldl (\<lambda>d (k, v). dict_set k v d) [] pairs"

lemma length_skip_ws: "length (skip_ws s) \<le> length s"
  by (simp add: skip_ws_def length_dropWhile_le)

lemma skip_ws_Cons_length: "skip_ws s = d # r \<Longrightarrow> length r < length s"
  using length_skip_ws [of s] by simp

lemma scanstring_length: "scanstring s = Some (k, r) \<Longrightarrow> length r < length s"
proof (induction s arbitrary: k r rule: scanstring.induct)
  case 1
  then show ?case by simp
next
  case (2 c s)
  show ?case
    using "2.prems" "2.IH"
    by (fastforce simp: cons_fst_def split: if_splits list.splits option.splits)
qed

text \<open>
  \<^verbatim>\<open>_scan_once\<close>, \<^verbatim>\<open>JSONArray\<close> and \<^verbatim>\<open>JSONObject\<close>, with the room left for nesting.
  \<open>parse_array\<close> is the loop of \<^verbatim>\<open>JSONArray\<close>, entered at the first character of an
  element; \<open>parse_object\<close> is the loop of \<^verbatim>\<open>JSONObject\<close>, entered just after the opening
  quote of a key. Entering an array or an object takes one level of the room, and with no
  room left the interpreter raises \<^verbatim>\<open>RecursionError\<close>. The first failure met from left to
  right is the one raised. The two tests on lengths carry the termination argument and
  never fail (\<open>parse_array_unguarded\<close>, \<open>parse_object_unguarded\<close>).
\<close>

function parse_value :: "interpreter \<Rightarrow> nat \<Rightarrow> string \<Rightarrow> decode_error + json \<times> string"
  and parse_array :: "interpreter \<Rightarrow> nat \<Rightarrow> string \<Rightarrow> decode_error + json list \<times> string"
  and parse_object ::
    "interpreter \<Rightarrow> nat \<Rightarrow> string \<Rightarrow> decode_error + (unicode \<times> json) list \<times> string"
where
  "parse_value I room [] = Inl JSONDecodeError"
| "parse_value I room (c # r) =
     (if c = dquote then
        (case scanstring r of
           None \<Rightarrow> Inl JSONDecodeError
         | Some (k, rest) \<Rightarrow> Inr (JString k, rest))
      else if c = CHR ''{'' then
        (if room = 0 then Inl RecursionError
         else case skip_ws r of
             [] \<Rightarrow> Inl JSONDecodeError
           | d # r' \<Rightarrow>
               if d = CHR ''}'' then Inr (JObject [], r')
               else if d = dquote then
                 (case parse_object I (room - 1) r' of
                    Inl e \<Rightarrow> Inl e
                  | Inr (pairs, rest) \<Rightarrow> Inr (JObject (py_dict pairs), rest))
               else Inl JSONDecodeError)
      else if c = CHR ''['' then
        (if room = 0 then Inl RecursionError
         else case skip_ws r of
             [] \<Rightarrow> Inl JSONDecodeError
           | d # r' \<Rightarrow>
               if d = CHR '']'' then Inr (JArray [], r')
               else
                 (case parse_array I (room - 1) (d # r') of
                    Inl e \<Rightarrow> Inl e
                  | Inr (vs, rest) \<Rightarrow> Inr (JArray vs, rest)))
      else scan_atom I (c # r))"
| "parse_array I room s =
     (case parse_value I room s of
        Inl e \<Rightarrow> Inl e
      | Inr (v, r) \<Rightarrow>
          (case skip_ws r of
             [] \<Rightarrow> Inl JSONDecodeError
           | d # r' \<Rightarrow>
               if d = CHR '']'' then Inr ([v], r')
               else if d = CHR '','' then
                 (if length r' < length s then
                    (case parse_array I room (skip_ws r') of
                       Inl e \<Rightarrow> Inl e
                     | Inr (vs, rest) \<Rightarrow> Inr (v # vs, rest))
                  else Inl JSONDecodeError)
               else Inl JSONDecodeError))"
| "parse_object I room s =
     (case scanstring s of
        None \<Rightarrow> Inl JSONDecodeError
      | Some (key, r) \<Rightarrow>
          (case skip_ws r of
             [] \<Rightarrow> Inl JSONDecodeError
           | d # r1 \<Rightarrow>
               if d \<noteq> CHR '':'' then Inl JSONDecodeError
               else
                 (case parse_value I room (skip_ws r1) of
                    Inl e \<Rightarrow> Inl e
                  | Inr (v, r2) \<Rightarrow>
                      (case skip_ws r2 of
                         [] \<Rightarrow> Inl JSONDecodeError
                       | e # r3 \<Rightarrow>
                           if e = CHR ''}'' then Inr ([(key, v)], r3)
                           else if e = CHR '','' then
                             (case skip_ws r3 of
                                [] \<Rightarrow> Inl JSONDecodeError
                              | q # r4 \<Rightarrow>
                                  if q \<noteq> dquote then Inl JSONDecodeError
                                  else if length r4 < length s then
                                    (case parse_object I room r4 of
                                       Inl e \<Rightarrow> Inl e
                                     | Inr (pairs, rest) \<Rightarrow> Inr ((key, v) # pairs, rest))
                                  else Inl JSONDecodeError)
                           else Inl JSONDecodeError))))"
  by pat_completeness auto
termination
proof (relation "measure (\<lambda>x. case x of
          Inl (I, room, s) \<Rightarrow> 2 * length s
        | Inr (Inl (I, room, s)) \<Rightarrow> 2 * length s + 1
        | Inr (Inr (I, room, s)) \<Rightarrow> 2 * length s + 2)", goal_cases)
  case 1
  then show ?case by simp
next
  case (2 I room c r d r')
  then show ?case using skip_ws_Cons_length [of r d r'] by simp
next
  case (3 I room c r d r')
  then show ?case using length_skip_ws [of r] by simp
next
  case (4 I room s)
  then show ?case by simp
next
  case (5 I room s p v r d r')
  then show ?case using length_skip_ws [of r'] by simp
next
  case (6 I room s p key r d r1)
  then show ?case
    using scanstring_length [of s key r] skip_ws_Cons_length [of r d r1] length_skip_ws [of r1]
    by simp
next
  case 7
  then show ?case by simp
qed

text \<open>
  \<^verbatim>\<open>json.loads\<close>: whitespace, one value, whitespace, and nothing more, in an interpreter
  with the given limits.
\<close>

definition json_loads :: "interpreter \<Rightarrow> string \<Rightarrow> decode_error + json" where
  "json_loads I s =
     (case parse_value I (recursion_room I) (skip_ws s) of
        Inl e \<Rightarrow> Inl e
      | Inr (v, r) \<Rightarrow> if skip_ws r = [] then Inr v else Inl JSONDecodeError)"

declare parse_value.simps(2) [simp del] parse_array.simps [simp del] parse_object.simps [simp del]

section \<open>The frame accumulator of \<^verbatim>\<open>receive_messages\<close>\<close>

text \<open>
  The local variables of the reading loop (lines 186 to 190 of the source) and the bound
  of line 191. The counters are Python integers: \<^verbatim>\<open>brace_count\<close> and \<^verbatim>\<open>bracket_count\<close>
  may become negative.
\<close>

record scan_state =
  json_buffer :: string
  brace_count :: int
  bracket_count :: int
  in_string :: bool
  escape_next :: bool

definition initial :: scan_state where
  "initial = \<lparr>json_buffer = [], brace_count = 0, bracket_count = 0,
              in_string = False, escape_next = False\<rparr>"

definition MAX_BUFFER_SIZE :: nat where
  "MAX_BUFFER_SIZE = 50 * 1024 * 1024"

text \<open>
  What the caller of the transport may see raised: the SDK's own errors, and the two
  errors of the decoder that the loop does not catch.
\<close>

datatype error =
    CLIConnectionError string
  | CLINotFoundError string
  | SDKJSONDecodeError string
  | ProcessError string int string
  | PyValueError
  | PyRecursionError

text \<open>The body of the \<^verbatim>\<open>while i < len(line_str)\<close> loop, for one character.\<close>

definition scan_char :: "scan_state \<Rightarrow> char \<Rightarrow> scan_state" where
  "scan_char st c =
     (if in_string st then
        (if escape_next st then st\<lparr>escape_next := False\<rparr>
         else if c = backslash then st\<lparr>escape_next := True\<rparr>
         else if c = dquote then st\<lparr>in_string := False\<rparr>
         else st)
      else
        (if c = dquote then st\<lparr>in_string := True\<rparr>
         else if c = CHR ''{'' then st\<lparr>brace_count := brace_count st + 1\<rparr>
         else if c = CHR ''}'' then st\<lparr>brace_count := brace_count st - 1\<rparr>
         else if c = CHR ''['' then st\<lparr>bracket_count := bracket_count st + 1\<rparr>
         else if c = CHR '']'' then st\<lparr>bracket_count := bracket_count st - 1\<rparr>
         else st))"

text \<open>The whole loop over the characters of the new line.\<close>

definition scan_line :: "scan_state \<Rightarrow> string \<Rightarrow> scan_state" where
  "scan_line st line_str = foldl scan_char st line_str"

text \<open>The test of line 246.\<close>

definition complete :: "scan_state \<Rightarrow> bool" where
  "complete st =
     (json_buffer st \<noteq> [] \<and> brace_count st = 0 \<and> bracket_count st = 0 \<and> \<not> in_string st)"

text \<open>Lines 213 to 216: the buffer after the line is added.\<close>

definition add_line :: "string \<Rightarrow> string \<Rightarrow> string" where
  "add_line buf line_str = (if buf \<noteq> [] then buf @ [newline] @ line_str else line_str)"

text \<open>
  One pass of the \<^verbatim>\<open>async for\<close> body (lines 196 to 276) for one item of the stream:
  the loop goes on with a state (\<open>Continue\<close>), yields a value and goes on (\<open>Yield\<close>), or
  raises (\<open>Raise\<close>). Line 260 catches \<^verbatim>\<open>json.JSONDecodeError\<close> only: a \<^verbatim>\<open>ValueError\<close> or a
  \<^verbatim>\<open>RecursionError\<close> of \<^verbatim>\<open>json.loads\<close> leaves the loop. The debug printing of lines 200 to
  202 changes nothing and is left out.
\<close>

datatype step = Continue scan_state | Yield json scan_state | Raise error

definition feed :: "interpreter \<Rightarrow> scan_state \<Rightarrow> string \<Rightarrow> step" where
  "feed I st line =
     (let line_str = strip line in
      if line_str = [] then Continue st
      else if length (json_buffer st) + length line_str > MAX_BUFFER_SIZE then
        Raise (SDKJSONDecodeError ''JSON buffer exceeded 52428800 bytes. Response too large.'')
      else
        (let st1 = scan_line (st\<lparr>json_buffer := add_line (json_buffer st) line_str\<rparr>) line_str in
         if complete st1 then
           (case json_loads I (json_buffer st1) of
              Inr data \<Rightarrow> Yield data initial
            | Inl JSONDecodeError \<Rightarrow>
                if startswith (json_buffer st1) ''{'' \<or> startswith (json_buffer st1) ''['' then
                  (if length (json_buffer st1) < MAX_BUFFER_SIZE then Continue st1
                   else Raise (SDKJSONDecodeError (take 1000 (json_buffer st1) @ ''...'')))
                else Continue initial
            | Inl ValueError \<Rightarrow> Raise PyValueError
            | Inl RecursionError \<Rightarrow> Raise PyRecursionError)
         else Continue st1))"

text \<open>
  The \<^verbatim>\<open>async for\<close> loop over the items the stream delivers until it ends: the values
  yielded in order, and the error raised or the state at the end of the stream. The
  consumer is taken to ask for every value (no \<^verbatim>\<open>GeneratorExit\<close>).
\<close>

fun read_stdout ::
  "interpreter \<Rightarrow> scan_state \<Rightarrow> string list \<Rightarrow> json list \<times> (error + scan_state)" where
  "read_stdout I st [] = ([], Inr st)"
| "read_stdout I st (line # rest) =
     (case feed I st line of
        Continue st' \<Rightarrow> read_stdout I st' rest
      | Yield data st' \<Rightarrow> (let (ds, r) = read_stdout I st' rest in (data # ds, r))
      | Raise e \<Rightarrow> ([], Inl e))"

section \<open>The transport\<close>

text \<open>
  The child process as the transport sees it: \<open>returncode\<close> is the attribute of the
  handle (\<open>None\<close> while the child runs); \<open>exit_status\<close> is the code that \<^verbatim>\<open>wait()\<close> finds;
  \<open>reaction\<close> is what the child does when \<^verbatim>\<open>terminate()\<close> is called: it exits within the
  five seconds of \<^verbatim>\<open>fail_after\<close>, it does not, or it is gone already and the call raises
  \<^verbatim>\<open>ProcessLookupError\<close>. \<^verbatim>\<open>kill()\<close> and the \<^verbatim>\<open>wait()\<close> after it are taken to succeed.
  A stream is the list of the items it delivers; the reading position is not part of the
  transport's state.
\<close>

datatype reaction = ExitsInTime | IgnoresTerminate | AlreadyGone

record process =
  returncode :: "int option"
  exit_status :: int
  reaction :: reaction

record transport =
  cli_path :: string
  process :: "process option"
  stdout_stream :: "string list option"
  stderr_stream :: "string list option"

text \<open>\<^verbatim>\<open>__init__\<close>: no process and no streams.\<close>

definition init_transport :: "string \<Rightarrow> transport" where
  "init_transport path =
     \<lparr>cli_path = path, process = None, stdout_stream = None, stderr_stream = None\<rparr>"

text \<open>
  \<^verbatim>\<open>connect\<close>, given what \<^verbatim>\<open>anyio.open_process\<close> does: it returns a process with its
  two pipes, raises \<^verbatim>\<open>FileNotFoundError\<close>, or raises something else.
\<close>

datatype spawn =
    Started process "string list option" "string list option"
  | FileNotFound
  | SpawnFailed string

definition connect :: "transport \<Rightarrow> spawn \<Rightarrow> transport \<times> error option" where
  "connect t sp =
     (if process t \<noteq> None then (t, None)
      else case sp of
          Started p out err \<Rightarrow>
            (t\<lparr>process := Some p,
               stdout_stream := (case out of Some x \<Rightarrow> Some x | None \<Rightarrow> stdout_stream t),
               stderr_stream := (case err of Some x \<Rightarrow> Some x | None \<Rightarrow> stderr_stream t)\<rparr>,
             None)
        | FileNotFound \<Rightarrow> (t, Some (CLINotFoundError (''Claude Code not found at: '' @ cli_path t)))
        | SpawnFailed msg \<Rightarrow> (t, Some (CLIConnectionError (''Failed to start Claude Code: '' @ msg))))"

text \<open>
  \<^verbatim>\<open>disconnect\<close>: the transport afterwards and the calls made on the process, in order.
\<close>

datatype os_call = Terminate | WaitWithin5s | Kill | WaitForExit

definition disconnect :: "transport \<Rightarrow> transport \<times> os_call list" where
  "disconnect t =
     (case process t of
        None \<Rightarrow> (t, [])
      | Some p \<Rightarrow>
          (t\<lparr>process := None, stdout_stream := None, stderr_stream := None\<rparr>,
           if returncode p = None then
             (case reaction p of
                ExitsInTime \<Rightarrow> [Terminate, WaitWithin5s]
              | IgnoresTerminate \<Rightarrow> [Terminate, WaitWithin5s, Kill, WaitForExit]
              | AlreadyGone \<Rightarrow> [Terminate])
           else []))"

text \<open>\<^verbatim>\<open>send_request\<close>: the body is a docstring.\<close>

definition send_request ::
  "transport \<Rightarrow> json list \<Rightarrow> (unicode \<times> json) list \<Rightarrow> transport \<times> error option" where
  "send_request t messages options = (t, None)"

definition is_connected :: "transport \<Rightarrow> bool" where
  "is_connected t = (case process t of None \<Rightarrow> False | Some p \<Rightarrow> returncode p = None)"

text \<open>\<^verbatim>\<open>await self._process.wait()\<close> on line 281.\<close>

definition wait :: "process \<Rightarrow> process" where
  "wait p = (case returncode p of None \<Rightarrow> p\<lparr>returncode := Some (exit_status p)\<rparr> | Some _ \<Rightarrow> p)"

text \<open>Lines 282 to 289: the exit code against the collected diagnostic lines.\<close>

definition check_exit :: "int option \<Rightarrow> string list \<Rightarrow> error option" where
  "check_exit rc stderr_lines =
     (case rc of
        None \<Rightarrow> None
      | Some code \<Rightarrow>
          if code \<noteq> 0 then
            (let stderr_output = join [newline] stderr_lines in
             if stderr_output \<noteq> [] \<and> contains (lower stderr_output) ''error''
             then Some (ProcessError ''CLI process failed'' code stderr_output)
             else None)
          else None)"

text \<open>\<^verbatim>\<open>read_stderr\<close>: every item of the diagnostic stream, stripped.\<close>

definition read_stderr :: "transport \<Rightarrow> string list" where
  "read_stderr t = (case stderr_stream t of None \<Rightarrow> [] | Some items \<Rightarrow> map strip items)"

text \<open>
  \<^verbatim>\<open>receive_messages\<close>: the values yielded, the error that ends the sequence (if any), and
  the transport afterwards. The task group ends when both readers have ended, so the
  diagnostic lines are complete when the exit code is looked at. \<open>I\<close> is the interpreter
  that runs the transport.
\<close>

definition receive_messages ::
  "interpreter \<Rightarrow> transport \<Rightarrow> json list \<times> error option \<times> transport" where
  "receive_messages I t =
     (case process t of
        None \<Rightarrow> ([], Some (CLIConnectionError ''Not connected''), t)
      | Some p \<Rightarrow>
          (case stdout_stream t of
             None \<Rightarrow> ([], Some (CLIConnectionError ''Not connected''), t)
           | Some items \<Rightarrow>
               (let stderr_lines = read_stderr t in
                case read_stdout I initial items of
                  (ds, Inl e) \<Rightarrow> (ds, Some e, t)
                | (ds, Inr _) \<Rightarrow>
                    (let p' = wait p
                     in (ds, check_exit (returncode p') stderr_lines, t\<lparr>process := Some p'\<rparr>)))))"

text \<open>
  The transports that the operations produce: \<^verbatim>\<open>connect\<close> sets the streams only
  together with the process, and \<^verbatim>\<open>disconnect\<close> clears all three attributes together.
\<close>

definition consistent :: "transport \<Rightarrow> bool" where
  "consistent t = (process t = None \<longrightarrow> stdout_stream t = None \<and> stderr_stream t = None)"

section \<open>The lifecycle of the transport\<close>

lemma consistent_init: "consistent (init_transport path)"
  by (simp add: consistent_def init_transport_def)

lemma consistent_connect: "consistent t \<Longrightarrow> consistent (fst (connect t sp))"
  by (auto simp: consistent_def connect_def split: spawn.splits option.splits)

lemma consistent_disconnect: "consistent t \<Longrightarrow> consistent (fst (disconnect t))"
  by (auto simp: consistent_def disconnect_def split: option.splits)

lemma consistent_receive_messages:
  "consistent t \<Longrightarrow> consistent (snd (snd (receive_messages I t)))"
  by (auto simp: consistent_def receive_messages_def Let_def
           split: option.splits prod.splits sum.splits)

lemma consistent_send_request: "consistent t \<Longrightarrow> consistent (fst (send_request t ms os))"
  by (simp add: send_request_def)

text \<open>
  C10. For every list of messages and every dictionary of options, \<^verbatim>\<open>send_request\<close>
  returns normally (no error) and gives back the transport it was called on: the process
  handle, both stream handles and the answer of \<^verbatim>\<open>is_connected\<close> are unchanged.
\<close>

theorem send_request_noop:
  "send_request t messages options = (t, None)
   \<and> process (fst (send_request t messages options)) = process t
   \<and> stdout_stream (fst (send_request t messages options)) = stdout_stream t
   \<and> stderr_stream (fst (send_request t messages options)) = stderr_stream t
   \<and> is_connected (fst (send_request t messages options)) = is_connected t"
  by (simp add: send_request_def)

theorem send_request_noop_witness:
  "send_request (init_transport ''claude'') [JNull] [([97], JBool True)]
     = (init_transport ''claude'', None)"
  using send_request_noop [of "init_transport ''claude''" "[JNull]" "[([97], JBool True)]"]
  by simp

text \<open>
  C8. \<^verbatim>\<open>receive_messages\<close> on a transport without a process or without a message stream
  ends at once with \<^verbatim>\<open>CLIConnectionError("Not connected")\<close>, yields nothing and leaves the
  transport as it was. This is the case of a new transport, of a transport after
  \<^verbatim>\<open>disconnect\<close>, and of a transport whose \<^verbatim>\<open>connect\<close> failed.
\<close>

theorem receive_messages_not_connected:
  "(process t = None \<or> stdout_stream t = None \<longrightarrow>
      receive_messages I t = ([], Some (CLIConnectionError ''Not connected''), t))
   \<and> receive_messages I (init_transport path)
       = ([], Some (CLIConnectionError ''Not connected''), init_transport path)
   \<and> receive_messages I (fst (disconnect t))
       = ([], Some (CLIConnectionError ''Not connected''), fst (disconnect t))
   \<and> (snd (connect (init_transport path) sp) \<noteq> None \<longrightarrow>
        receive_messages I (fst (connect (init_transport path) sp))
          = ([], Some (CLIConnectionError ''Not connected''), fst (connect (init_transport path) sp)))"
  by (auto simp: receive_messages_def init_transport_def disconnect_def connect_def
           split: option.splits spawn.splits)

theorem receive_messages_not_connected_witness:
  "process (init_transport ''claude'') = None
   \<and> snd (connect (init_transport ''claude'') FileNotFound) \<noteq> None
   \<and> receive_messages example_interpreter (init_transport ''claude'')
       = ([], Some (CLIConnectionError ''Not connected''), init_transport ''claude'')
   \<and> receive_messages example_interpreter (fst (connect (init_transport ''claude'') FileNotFound))
       = ([], Some (CLIConnectionError ''Not connected''),
          fst (connect (init_transport ''claude'') FileNotFound))"
proof -
  have h1: "process (init_transport ''claude'') = None"
    by (simp add: init_transport_def)
  have h2: "snd (connect (init_transport ''claude'') FileNotFound) \<noteq> None"
    by (simp add: connect_def init_transport_def)
  show ?thesis
    using h1 h2
      receive_messages_not_connected [of "init_transport ''claude''" example_interpreter "''claude''" FileNotFound]
    by simp
qed

text \<open>
  C7 as stated fails: on a live child for which \<^verbatim>\<open>terminate()\<close> raises
  \<^verbatim>\<open>ProcessLookupError\<close>, \<^verbatim>\<open>disconnect\<close> makes no \<^verbatim>\<open>wait()\<close> call at all (lines 156 and 157).
\<close>

theorem gone_child_not_awaited:
  "is_connected \<lparr>cli_path = ''claude'',
       process = Some \<lparr>returncode = None, exit_status = 0, reaction = AlreadyGone\<rparr>,
       stdout_stream = Some [], stderr_stream = Some []\<rparr>
   \<and> snd (disconnect \<lparr>cli_path = ''claude'',
       process = Some \<lparr>returncode = None, exit_status = 0, reaction = AlreadyGone\<rparr>,
       stdout_stream = Some [], stderr_stream = Some []\<rparr>) = [Terminate]
   \<and> WaitWithin5s \<notin> set (snd (disconnect \<lparr>cli_path = ''claude'',
       process = Some \<lparr>returncode = None, exit_status = 0, reaction = AlreadyGone\<rparr>,
       stdout_stream = Some [], stderr_stream = Some []\<rparr>))
   \<and> WaitForExit \<notin> set (snd (disconnect \<lparr>cli_path = ''claude'',
       process = Some \<lparr>returncode = None, exit_status = 0, reaction = AlreadyGone\<rparr>,
       stdout_stream = Some [], stderr_stream = Some []\<rparr>))"
  by (simp add: is_connected_def disconnect_def)

text \<open>
  C7, amended. \<^verbatim>\<open>disconnect\<close> on a transport without a process does nothing. On a child
  that has exited (a return code is present) it makes no call on the process. On a live
  child it calls \<^verbatim>\<open>terminate()\<close>; when that call succeeds it waits within the five seconds,
  and when that wait times out it calls \<^verbatim>\<open>kill()\<close> and waits for the exit, so that the
  last call is a wait; when \<^verbatim>\<open>terminate()\<close> finds the child gone (\<^verbatim>\<open>ProcessLookupError\<close>)
  nothing more is done, no wait is made and nothing is raised. Afterwards the process and
  both streams are released, the transport is not connected, and a second \<^verbatim>\<open>disconnect\<close>
  changes nothing and makes no call.
\<close>

theorem disconnect_idempotent_tolerant:
  assumes "consistent t"
  shows "(process t = None \<longrightarrow> disconnect t = (t, []))
    \<and> (\<forall>p code. process t = Some p \<and> returncode p = Some code \<longrightarrow> snd (disconnect t) = [])
    \<and> (\<forall>p. process t = Some p \<and> returncode p = None \<and> reaction p = ExitsInTime \<longrightarrow>
          snd (disconnect t) = [Terminate, WaitWithin5s])
    \<and> (\<forall>p. process t = Some p \<and> returncode p = None \<and> reaction p = IgnoresTerminate \<longrightarrow>
          snd (disconnect t) = [Terminate, WaitWithin5s, Kill, WaitForExit])
    \<and> (\<forall>p. process t = Some p \<and> returncode p = None \<and> reaction p = AlreadyGone \<longrightarrow>
          snd (disconnect t) = [Terminate])
    \<and> (\<forall>p. process t = Some p \<and> returncode p = None \<and> reaction p \<noteq> AlreadyGone \<longrightarrow>
          hd (snd (disconnect t)) = Terminate
          \<and> (last (snd (disconnect t)) = WaitWithin5s \<or> last (snd (disconnect t)) = WaitForExit))
    \<and> process (fst (disconnect t)) = None
    \<and> stdout_stream (fst (disconnect t)) = None
    \<and> stderr_stream (fst (disconnect t)) = None
    \<and> \<not> is_connected (fst (disconnect t))
    \<and> disconnect (fst (disconnect t)) = (fst (disconnect t), [])"
proof -
  have w: "hd (snd (disconnect t)) = Terminate
      \<and> (last (snd (disconnect t)) = WaitWithin5s \<or> last (snd (disconnect t)) = WaitForExit)"
    if "process t = Some p" "returncode p = None" "reaction p \<noteq> AlreadyGone" for p
    using that by (cases "reaction p") (simp_all add: disconnect_def)
  have rest: "(process t = None \<longrightarrow> disconnect t = (t, []))
    \<and> (\<forall>p code. process t = Some p \<and> returncode p = Some code \<longrightarrow> snd (disconnect t) = [])
    \<and> (\<forall>p. process t = Some p \<and> returncode p = None \<and> reaction p = ExitsInTime \<longrightarrow>
          snd (disconnect t) = [Terminate, WaitWithin5s])
    \<and> (\<forall>p. process t = Some p \<and> returncode p = None \<and> reaction p = IgnoresTerminate \<longrightarrow>
          snd (disconnect t) = [Terminate, WaitWithin5s, Kill, WaitForExit])
    \<and> (\<forall>p. process t = Some p \<and> returncode p = None \<and> reaction p = AlreadyGone \<longrightarrow>
          snd (disconnect t) = [Terminate])
    \<and> process (fst (disconnect t)) = None
    \<and> stdout_stream (fst (disconnect t)) = None
    \<and> stderr_stream (fst (disconnect t)) = None
    \<and> \<not> is_connected (fst (disconnect t))
    \<and> disconnect (fst (disconnect t)) = (fst (disconnect t), [])"
    using assms
    by (auto simp: disconnect_def consistent_def is_connected_def split: option.splits)
  from w rest show ?thesis by blast
qed

theorem disconnect_idempotent_tolerant_witness:
  "consistent \<lparr>cli_path = ''claude'',
       process = Some \<lparr>returncode = None, exit_status = 0, reaction = IgnoresTerminate\<rparr>,
       stdout_stream = Some [], stderr_stream = Some []\<rparr>
   \<and> snd (disconnect \<lparr>cli_path = ''claude'',
       process = Some \<lparr>returncode = None, exit_status = 0, reaction = IgnoresTerminate\<rparr>,
       stdout_stream = Some [], stderr_stream = Some []\<rparr>)
       = [Terminate, WaitWithin5s, Kill, WaitForExit]
   \<and> process (fst (disconnect \<lparr>cli_path = ''claude'',
       process = Some \<lparr>returncode = None, exit_status = 0, reaction = IgnoresTerminate\<rparr>,
       stdout_stream = Some [], stderr_stream = Some []\<rparr>)) = None"
proof -
  have h: "consistent \<lparr>cli_path = ''claude'',
       process = Some \<lparr>returncode = None, exit_status = 0, reaction = IgnoresTerminate\<rparr>,
       stdout_stream = Some [], stderr_stream = Some []\<rparr>"
    by (simp add: consistent_def)
  show ?thesis
    using h disconnect_idempotent_tolerant [OF h]
    by simp
qed

section \<open>The end of the message sequence\<close>

lemma contains_lower_Nil: "\<not> contains (lower []) ''error''"
  by (simp add: lower_def)

text \<open>
  C4. When the reading loop has ended without an error, \<^verbatim>\<open>receive_messages\<close> has yielded
  the values of the loop, and it ends with \<^verbatim>\<open>ProcessError\<close>, carrying the exit code and
  the joined diagnostic lines, exactly when the exit code is not zero and the lowered
  diagnostic text contains \<^verbatim>\<open>error\<close>; otherwise it ends without an error.
\<close>

theorem process_failure_iff:
  assumes "process t = Some p" and "stdout_stream t = Some items"
    and "read_stdout I initial items = (ds, Inr st)"
    and "returncode (wait p) = Some code"
    and "stderr_output = join [newline] (read_stderr t)"
  shows "fst (receive_messages I t) = ds
    \<and> fst (snd (receive_messages I t)) =
        (if code \<noteq> 0 \<and> contains (lower stderr_output) ''error''
         then Some (ProcessError ''CLI process failed'' code stderr_output) else None)"
  using assms contains_lower_Nil
  by (auto simp: receive_messages_def check_exit_def Let_def)

theorem process_failure_iff_witness:
  "fst (snd (receive_messages example_interpreter \<lparr>cli_path = ''claude'',
       process = Some \<lparr>returncode = None, exit_status = 1, reaction = ExitsInTime\<rparr>,
       stdout_stream = Some [], stderr_stream = Some [''Error: bad flag'']\<rparr>))
     = Some (ProcessError ''CLI process failed'' 1 ''Error: bad flag'')
   \<and> fst (snd (receive_messages example_interpreter \<lparr>cli_path = ''claude'',
       process = Some \<lparr>returncode = None, exit_status = 1, reaction = ExitsInTime\<rparr>,
       stdout_stream = Some [], stderr_stream = Some []\<rparr>))
     = None"
proof -
  let ?p = "\<lparr>returncode = None, exit_status = 1, reaction = ExitsInTime\<rparr>"
  let ?t1 = "\<lparr>cli_path = ''claude'', process = Some ?p,
       stdout_stream = Some [], stderr_stream = Some [''Error: bad flag'']\<rparr>"
  let ?t2 = "\<lparr>cli_path = ''claude'', process = Some ?p,
       stdout_stream = Some [], stderr_stream = Some []\<rparr>"
  have w: "returncode (wait ?p) = Some 1"
    by (simp add: wait_def)
  have r: "read_stdout example_interpreter initial [] = ([], Inr initial)"
    by simp
  have e1: "join [newline] (read_stderr ?t1) = ''Error: bad flag''"
    by (simp add: read_stderr_def strip_def is_space_def)
  have e2: "join [newline] (read_stderr ?t2) = []"
    by (simp add: read_stderr_def)
  have c1: "contains (lower ''Error: bad flag'') ''error''"
    by code_simp
  have a: "fst (snd (receive_messages example_interpreter ?t1))
      = Some (ProcessError ''CLI process failed'' 1 ''Error: bad flag'')"
    using process_failure_iff [of ?t1 ?p "[]" example_interpreter "[]" initial 1 "''Error: bad flag''"] w r e1 c1
    by simp
  have b: "fst (snd (receive_messages example_interpreter ?t2)) = None"
    using process_failure_iff [of ?t2 ?p "[]" example_interpreter "[]" initial 1 "[]"] w r e2 contains_lower_Nil
    by simp
  show ?thesis using a b by simp
qed

section \<open>The scanner over one frame\<close>

text \<open>The frame of the specification's example, with its escaped quote.\<close>

definition example_frame :: string where
  \<open>example_frame = ''{"text": "a [b] {c} '' @ [backslash] @ ''" d"}''\<close>

text \<open>The scanner's state after each non-empty prefix of a text.\<close>

fun scan_states :: "scan_state \<Rightarrow> string \<Rightarrow> scan_state list" where
  "scan_states st [] = []"
| "scan_states st (c # cs) = scan_char st c # scan_states (scan_char st c) cs"


lemma scan_line_Nil [simp]: "scan_line st [] = st"
  by (simp add: scan_line_def)

lemma scan_line_Cons [simp]: "scan_line st (c # cs) = scan_line (scan_char st c) cs"
  by (simp add: scan_line_def)

lemma scan_line_append: "scan_line st (xs @ ys) = scan_line (scan_line st xs) ys"
  by (simp add: scan_line_def)

lemma json_buffer_scan_char [simp]: "json_buffer (scan_char st c) = json_buffer st"
  by (simp add: scan_char_def)

lemma json_buffer_scan_line [simp]: "json_buffer (scan_line st s) = json_buffer st"
  by (induction s arbitrary: st) simp_all

lemma length_scan_states [simp]: "length (scan_states st s) = length s"
  by (induction s arbitrary: st) simp_all

lemma scan_states_nth:
  "n < length s \<Longrightarrow> scan_states st s ! n = scan_line st (take (Suc n) s)"
proof (induction s arbitrary: st n)
  case Nil
  then show ?case by simp
next
  case (Cons c cs)
  then show ?case by (cases n) simp_all
qed

lemma proper_prefixes_iff:
  "(\<forall>n. 0 < n \<and> n < length s \<longrightarrow> P (scan_line st (take n s)))
     = list_all P (butlast (scan_states st s))"
proof -
  have "list_all P (butlast (scan_states st s))
      = (\<forall>k < length s - 1. P (scan_states st s ! k))"
    by (simp add: list_all_length nth_butlast)
  also have "\<dots> = (\<forall>k < length s - 1. P (scan_line st (take (Suc k) s)))"
    by (auto simp: scan_states_nth)
  also have "\<dots> = (\<forall>n. 0 < n \<and> n < length s \<longrightarrow> P (scan_line st (take n s)))"
  proof
    assume a: "\<forall>k < length s - 1. P (scan_line st (take (Suc k) s))"
    show "\<forall>n. 0 < n \<and> n < length s \<longrightarrow> P (scan_line st (take n s))"
    proof (intro allI impI)
      fix n assume "0 < n \<and> n < length s"
      then have "n - 1 < length s - 1" and "Suc (n - 1) = n" by auto
      with a show "P (scan_line st (take n s))" by metis
    qed
  next
    assume a: "\<forall>n. 0 < n \<and> n < length s \<longrightarrow> P (scan_line st (take n s))"
    show "\<forall>k < length s - 1. P (scan_line st (take (Suc k) s))"
      using a by auto
  qed
  finally show ?thesis by simp
qed


lemma ex_complete: "complete (scan_line (initial\<lparr>json_buffer := example_frame\<rparr>) example_frame)"
  by code_simp

lemma ex_states: "list_all (\<lambda>x. \<not> complete x)
     (butlast (scan_states (initial\<lparr>json_buffer := example_frame\<rparr>) example_frame))"
  by code_simp

lemma feed_blank: "strip line = [] \<Longrightarrow> feed I st line = Continue st"
  by (simp add: feed_def)

lemma feed_too_large:
  "strip line \<noteq> [] \<Longrightarrow> length (json_buffer st) + length (strip line) > MAX_BUFFER_SIZE \<Longrightarrow>
   feed I st line
     = Raise (SDKJSONDecodeError ''JSON buffer exceeded 52428800 bytes. Response too large.'')"
  by (simp add: feed_def)

lemma feed_incomplete:
  "strip line = ls \<Longrightarrow> ls \<noteq> [] \<Longrightarrow> length (json_buffer st) + length ls \<le> MAX_BUFFER_SIZE \<Longrightarrow>
   st1 = scan_line (st\<lparr>json_buffer := add_line (json_buffer st) ls\<rparr>) ls \<Longrightarrow>
   \<not> complete st1 \<Longrightarrow> feed I st line = Continue st1"
  by (simp add: feed_def Let_def)

lemma feed_yield:
  "strip line = ls \<Longrightarrow> ls \<noteq> [] \<Longrightarrow> length (json_buffer st) + length ls \<le> MAX_BUFFER_SIZE \<Longrightarrow>
   st1 = scan_line (st\<lparr>json_buffer := add_line (json_buffer st) ls\<rparr>) ls \<Longrightarrow>
   complete st1 \<Longrightarrow> json_loads I (add_line (json_buffer st) ls) = Inr d \<Longrightarrow>
   feed I st line = Yield d initial"
  by (simp add: feed_def Let_def)


lemma feed_pending:
  "strip line = ls \<Longrightarrow> ls \<noteq> [] \<Longrightarrow> length (json_buffer st) + length ls \<le> MAX_BUFFER_SIZE \<Longrightarrow>
   st1 = scan_line (st\<lparr>json_buffer := add_line (json_buffer st) ls\<rparr>) ls \<Longrightarrow>
   complete st1 \<Longrightarrow> json_loads I (add_line (json_buffer st) ls) = Inl JSONDecodeError \<Longrightarrow>
   startswith (add_line (json_buffer st) ls) ''{'' \<or> startswith (add_line (json_buffer st) ls) ''['' \<Longrightarrow>
   length (add_line (json_buffer st) ls) < MAX_BUFFER_SIZE \<Longrightarrow>
   feed I st line = Continue st1"
  by (simp add: feed_def Let_def)

lemma feed_value_error:
  "strip line = ls \<Longrightarrow> ls \<noteq> [] \<Longrightarrow> length (json_buffer st) + length ls \<le> MAX_BUFFER_SIZE \<Longrightarrow>
   st1 = scan_line (st\<lparr>json_buffer := add_line (json_buffer st) ls\<rparr>) ls \<Longrightarrow>
   complete st1 \<Longrightarrow> json_loads I (add_line (json_buffer st) ls) = Inl ValueError \<Longrightarrow>
   feed I st line = Raise PyValueError"
  by (simp add: feed_def Let_def)

lemma feed_recursion_error:
  "strip line = ls \<Longrightarrow> ls \<noteq> [] \<Longrightarrow> length (json_buffer st) + length ls \<le> MAX_BUFFER_SIZE \<Longrightarrow>
   st1 = scan_line (st\<lparr>json_buffer := add_line (json_buffer st) ls\<rparr>) ls \<Longrightarrow>
   complete st1 \<Longrightarrow> json_loads I (add_line (json_buffer st) ls) = Inl RecursionError \<Longrightarrow>
   feed I st line = Raise PyRecursionError"
  by (simp add: feed_def Let_def)

text \<open>The definitions that evaluate the decoder on a given text.\<close>

lemmas decoder_eval =
  parse_value.simps parse_array.simps parse_object.simps json_loads_def skip_ws_def is_json_ws_def dquote_def backslash_def backslash_table_def
  scan_atom_def startswith_def match_number_def int_part_def frac_part_def exp_part_def
  parse_int_def str_digits_check_threshold_def is_digit_def int_of_text_def digit_val_def
  cons_fst_def py_dict_def

lemma ex_strip: "strip example_frame = example_frame"
  by code_simp

lemma ex_loads:
  "json_loads I example_frame =
     (if recursion_room I = 0 then Inl RecursionError
      else Inr (JObject [([116, 101, 120, 116],
             JString [97, 32, 91, 98, 93, 32, 123, 99, 125, 32, 34, 32, 100])]))"
  by (simp add: example_frame_def decoder_eval)

lemma ex_feed:
  "feed I initial example_frame =
     (if recursion_room I = 0 then Raise PyRecursionError
      else Yield (JObject [([116, 101, 120, 116],
             JString [97, 32, 91, 98, 93, 32, 123, 99, 125, 32, 34, 32, 100])]) initial)"
proof -
  have b: "add_line (json_buffer initial) example_frame = example_frame"
    by (simp add: add_line_def initial_def)
  have n: "example_frame \<noteq> []" by (simp add: example_frame_def)
  have l: "length (json_buffer initial) + length example_frame \<le> MAX_BUFFER_SIZE"
    by (simp add: initial_def example_frame_def MAX_BUFFER_SIZE_def)
  have c: "complete (scan_line (initial\<lparr>json_buffer := add_line (json_buffer initial) example_frame\<rparr>)
      example_frame)"
    using ex_complete by (simp only: b)
  show ?thesis
  proof (cases "recursion_room I = 0")
    case True
    then have "json_loads I (add_line (json_buffer initial) example_frame) = Inl RecursionError"
      by (simp only: b ex_loads) simp
    from feed_recursion_error [OF ex_strip n l refl c this] True show ?thesis by simp
  next
    case False
    then have "json_loads I (add_line (json_buffer initial) example_frame) = Inr (JObject [([116, 101, 120, 116],
             JString [97, 32, 91, 98, 93, 32, 123, 99, 125, 32, 34, 32, 100])])"
      by (simp only: b ex_loads) simp
    from feed_yield [OF ex_strip n l refl c this] False show ?thesis by simp
  qed
qed

lemma ex_read:
  "read_stdout I initial [example_frame] =
     (if recursion_room I = 0 then ([], Inl PyRecursionError)
      else ([JObject [([116, 101, 120, 116],
             JString [97, 32, 91, 98, 93, 32, 123, 99, 125, 32, 34, 32, 100])]], Inr initial))"
  by (simp add: ex_feed)

text \<open>
  C2. While \<open>in_string\<close> holds, no character changes the two counters; a backslash in a
  string (not itself escaped) sets \<open>escape_next\<close>, and the character after it only clears
  the flag, whatever it is. For the frame \<^verbatim>\<open>{"text": "a [b] {c} \" d"}\<close> the test of
  line 246 fails after every proper non-empty prefix and holds at the end, and the frame
  fed as one line yields its value once (in an interpreter with no room for one object,
  \<^verbatim>\<open>json.loads\<close> raises \<^verbatim>\<open>RecursionError\<close> instead).
\<close>

theorem string_contents_ignored:
  "(in_string st \<longrightarrow>
      brace_count (scan_char st c) = brace_count st
      \<and> bracket_count (scan_char st c) = bracket_count st)
   \<and> (in_string st \<and> \<not> escape_next st \<longrightarrow> scan_char st backslash = st\<lparr>escape_next := True\<rparr>)
   \<and> (in_string st \<and> escape_next st \<longrightarrow> scan_char st c = st\<lparr>escape_next := False\<rparr>)
   \<and> (\<forall>n. 0 < n \<and> n < length example_frame \<longrightarrow>
         \<not> complete (scan_line (initial\<lparr>json_buffer := example_frame\<rparr>) (take n example_frame)))
   \<and> complete (scan_line (initial\<lparr>json_buffer := example_frame\<rparr>) example_frame)
   \<and> read_stdout I initial [example_frame]
       = (if recursion_room I = 0 then ([], Inl PyRecursionError)
          else ([JObject [([116, 101, 120, 116],
             JString [97, 32, 91, 98, 93, 32, 123, 99, 125, 32, 34, 32, 100])]], Inr initial))"
proof -
  have a: "in_string st \<longrightarrow>
      brace_count (scan_char st c) = brace_count st
      \<and> bracket_count (scan_char st c) = bracket_count st"
    by (simp add: scan_char_def)
  have b: "in_string st \<and> \<not> escape_next st \<longrightarrow> scan_char st backslash = st\<lparr>escape_next := True\<rparr>"
    by (simp add: scan_char_def)
  have d: "in_string st \<and> escape_next st \<longrightarrow> scan_char st c = st\<lparr>escape_next := False\<rparr>"
    by (simp add: scan_char_def)
  have e: "\<forall>n. 0 < n \<and> n < length example_frame \<longrightarrow>
         \<not> complete (scan_line (initial\<lparr>json_buffer := example_frame\<rparr>) (take n example_frame))"
    using ex_states
      proper_prefixes_iff [where P = "\<lambda>x. \<not> complete x" and s = example_frame
        and st = "initial\<lparr>json_buffer := example_frame\<rparr>"]
    by simp
  show ?thesis by (intro conjI a b d e ex_complete ex_read)
qed

theorem string_contents_ignored_witness:
  "in_string (initial\<lparr>in_string := True\<rparr>)
   \<and> brace_count (scan_char (initial\<lparr>in_string := True\<rparr>) (CHR ''{'')) = 0
   \<and> bracket_count (scan_char (initial\<lparr>in_string := True\<rparr>) (CHR ''{'')) = 0
   \<and> scan_char (initial\<lparr>in_string := True\<rparr>) backslash
        = initial\<lparr>in_string := True, escape_next := True\<rparr>
   \<and> 0 < (22::nat) \<and> 22 < length example_frame
   \<and> \<not> complete (scan_line (initial\<lparr>json_buffer := example_frame\<rparr>) (take 22 example_frame))
   \<and> read_stdout example_interpreter initial [example_frame]
       = ([JObject [([116, 101, 120, 116],
             JString [97, 32, 91, 98, 93, 32, 123, 99, 125, 32, 34, 32, 100])]], Inr initial)"
proof -
  have h1: "in_string (initial\<lparr>in_string := True\<rparr>)" by simp
  have h2: "\<not> escape_next (initial\<lparr>in_string := True\<rparr>)" by (simp add: initial_def)
  have h3: "0 < (22::nat) \<and> 22 < length example_frame" by (simp add: example_frame_def)
  show ?thesis
    using h1 h2 h3
      string_contents_ignored [of "initial\<lparr>in_string := True\<rparr>" "CHR ''{''" example_interpreter]
    by (simp add: initial_def example_interpreter_def)
qed


section \<open>Lines and the buffer\<close>

lemma last_dropWhile: "dropWhile P xs \<noteq> [] \<Longrightarrow> last (dropWhile P xs) = last xs"
  by (induction xs) (auto split: if_splits)

lemma strip_id: "s \<noteq> [] \<Longrightarrow> \<not> is_space (hd s) \<Longrightarrow> \<not> is_space (last s) \<Longrightarrow> strip s = s"
proof -
  assume a: "s \<noteq> []" "\<not> is_space (hd s)" "\<not> is_space (last s)"
  have d: "dropWhile is_space s = s"
    using a by (simp add: dropWhile_eq_self_iff)
  have "hd (rev s) = last s" using a by (simp add: hd_rev)
  then have "dropWhile is_space (rev s) = rev s"
    using a by (simp add: dropWhile_eq_self_iff)
  then show ?thesis by (simp add: strip_def d)
qed

lemma strip_ends:
  assumes "strip s \<noteq> []"
  shows "\<not> is_space (hd (strip s))" and "\<not> is_space (last (strip s))"
proof -
  let ?d = "dropWhile is_space s"
  let ?e = "dropWhile is_space (rev ?d)"
  have e: "?e \<noteq> []" using assms by (simp add: strip_def)
  then have d: "?d \<noteq> []" by (metis dropWhile.simps(1) rev.simps(1))
  have "last (strip s) = hd ?e" using e by (simp add: strip_def last_rev)
  then show "\<not> is_space (last (strip s))" using e hd_dropWhile [of is_space "rev ?d"] by simp
  have "hd (strip s) = last ?e" using e by (simp add: strip_def hd_rev)
  also have "\<dots> = last (rev ?d)" using e by (rule last_dropWhile)
  also have "\<dots> = hd ?d" using d by (simp add: last_rev)
  finally show "\<not> is_space (hd (strip s))" using d hd_dropWhile [of is_space s] by simp
qed

lemma strip_replicate: "\<not> is_space c \<Longrightarrow> strip (replicate n c) = replicate n c"
  by (simp add: strip_def dropWhile_replicate)


lemma example_room: "recursion_room example_interpreter \<noteq> 0"
  by (simp add: example_interpreter_def)




text \<open>
  C9 as stated fails: a non-blank line whose length, added to the buffer's, is above
  \<open>MAX_BUFFER_SIZE\<close> is not added to the buffer; the pass raises.
\<close>

theorem oversized_line_not_added:
  "strip (replicate (Suc MAX_BUFFER_SIZE) (CHR ''a'')) \<noteq> []
   \<and> feed example_interpreter initial (replicate (Suc MAX_BUFFER_SIZE) (CHR ''a''))
       = Raise (SDKJSONDecodeError ''JSON buffer exceeded 52428800 bytes. Response too large.'')"
proof -
  have s: "strip (replicate (Suc MAX_BUFFER_SIZE) (CHR ''a'')) = replicate (Suc MAX_BUFFER_SIZE) (CHR ''a'')"
    by (rule strip_replicate) (simp add: is_space_def)
  have n: "replicate (Suc MAX_BUFFER_SIZE) (CHR ''a'') \<noteq> []"
    by simp
  have "feed example_interpreter initial (replicate (Suc MAX_BUFFER_SIZE) (CHR ''a''))
       = Raise (SDKJSONDecodeError ''JSON buffer exceeded 52428800 bytes. Response too large.'')"
    by (rule feed_too_large) (simp_all only: s length_replicate, simp_all)
  then show ?thesis using n by (simp only: s) simp
qed

text \<open>
  C9, amended. A pass depends on the line only through its stripped text; a blank line
  leaves the state as it is and yields nothing. A non-blank line with which the buffer
  holds at most \<open>MAX_BUFFER_SIZE\<close> characters is added stripped, after exactly one line feed
  when the buffer is not empty, and the buffer so formed is the one that is scanned: it is
  kept when the test of line 246 fails; when the test holds it is the text parsed, and it
  is given up only after its value has been yielded or after \<^verbatim>\<open>JSONDecodeError\<close> on a text
  that starts with neither \<^verbatim>\<open>{\<close> nor \<^verbatim>\<open>[\<close> (a \<^verbatim>\<open>ValueError\<close> or \<^verbatim>\<open>RecursionError\<close> of the
  decoder ends the loop). A non-blank line whose length, added to the buffer's, is above
  \<open>MAX_BUFFER_SIZE\<close> is not added: the pass raises. The case between the two, where only the
  joining line feed takes the buffer above the bound, is left out here.
\<close>

theorem line_handling:
  assumes "buf = (if json_buffer st = [] then strip line else json_buffer st @ [newline] @ strip line)"
    and "st1 = scan_line (st\<lparr>json_buffer := buf\<rparr>) (strip line)"
  shows "(strip line = strip line' \<longrightarrow> feed I st line = feed I st line')
   \<and> (strip line = [] \<longrightarrow> feed I st line = Continue st)
   \<and> (strip line \<noteq> [] \<and> length buf \<le> MAX_BUFFER_SIZE \<longrightarrow>
        json_buffer st1 = buf
        \<and> feed I st line =
            (if \<not> complete st1 then Continue st1
             else case json_loads I buf of
                 Inr d \<Rightarrow> Yield d initial
               | Inl JSONDecodeError \<Rightarrow>
                   if startswith buf ''{'' \<or> startswith buf ''['' then
                     (if length buf < MAX_BUFFER_SIZE then Continue st1
                      else Raise (SDKJSONDecodeError (take 1000 buf @ ''...'')))
                   else Continue initial
               | Inl ValueError \<Rightarrow> Raise PyValueError
               | Inl RecursionError \<Rightarrow> Raise PyRecursionError))
   \<and> (strip line \<noteq> [] \<and> length (json_buffer st) + length (strip line) > MAX_BUFFER_SIZE \<longrightarrow>
        feed I st line
          = Raise (SDKJSONDecodeError ''JSON buffer exceeded 52428800 bytes. Response too large.''))"
proof -
  have a: "strip line = strip line' \<longrightarrow> feed I st line = feed I st line'"
    by (simp add: feed_def)
  have b: "strip line = [] \<longrightarrow> feed I st line = Continue st"
    by (simp add: feed_blank)
  have al: "add_line (json_buffer st) (strip line) = buf"
    using assms(1) by (simp add: add_line_def)
  have jb: "json_buffer st1 = buf" using assms(2) by simp
  have c: "strip line \<noteq> [] \<and> length buf \<le> MAX_BUFFER_SIZE \<longrightarrow>
        json_buffer st1 = buf
        \<and> feed I st line =
            (if \<not> complete st1 then Continue st1
             else case json_loads I buf of
                 Inr d \<Rightarrow> Yield d initial
               | Inl JSONDecodeError \<Rightarrow>
                   if startswith buf ''{'' \<or> startswith buf ''['' then
                     (if length buf < MAX_BUFFER_SIZE then Continue st1
                      else Raise (SDKJSONDecodeError (take 1000 buf @ ''...'')))
                   else Continue initial
               | Inl ValueError \<Rightarrow> Raise PyValueError
               | Inl RecursionError \<Rightarrow> Raise PyRecursionError)"
  proof (intro impI, elim conjE)
    assume n: "strip line \<noteq> []" and l: "length buf \<le> MAX_BUFFER_SIZE"
    have "length (json_buffer st) + length (strip line) \<le> length buf"
      using assms(1) by simp
    with l have t: "\<not> length (json_buffer st) + length (strip line) > MAX_BUFFER_SIZE" by simp
    have "feed I st line =
            (if \<not> complete st1 then Continue st1
             else case json_loads I buf of
                 Inr d \<Rightarrow> Yield d initial
               | Inl JSONDecodeError \<Rightarrow>
                   if startswith buf ''{'' \<or> startswith buf ''['' then
                     (if length buf < MAX_BUFFER_SIZE then Continue st1
                      else Raise (SDKJSONDecodeError (take 1000 buf @ ''...'')))
                   else Continue initial
               | Inl ValueError \<Rightarrow> Raise PyValueError
               | Inl RecursionError \<Rightarrow> Raise PyRecursionError)"
      using n t by (simp add: feed_def Let_def al assms(2) [symmetric] jb
          split: sum.splits decode_error.splits)
    with jb show "json_buffer st1 = buf \<and> feed I st line =
            (if \<not> complete st1 then Continue st1
             else case json_loads I buf of
                 Inr d \<Rightarrow> Yield d initial
               | Inl JSONDecodeError \<Rightarrow>
                   if startswith buf ''{'' \<or> startswith buf ''['' then
                     (if length buf < MAX_BUFFER_SIZE then Continue st1
                      else Raise (SDKJSONDecodeError (take 1000 buf @ ''...'')))
                   else Continue initial
               | Inl ValueError \<Rightarrow> Raise PyValueError
               | Inl RecursionError \<Rightarrow> Raise PyRecursionError)"
      by simp
  qed
  have d: "strip line \<noteq> [] \<and> length (json_buffer st) + length (strip line) > MAX_BUFFER_SIZE \<longrightarrow>
        feed I st line
          = Raise (SDKJSONDecodeError ''JSON buffer exceeded 52428800 bytes. Response too large.'')"
    by (simp add: feed_too_large)
  show ?thesis by (intro conjI a b c d)
qed

theorem line_handling_witness:
  \<open>strip '' {"a":1, '' = strip ''{"a":1,''
   \<and> feed example_interpreter initial '' {"a":1, '' = feed example_interpreter initial ''{"a":1,''
   \<and> strip '' {"a":1, '' \<noteq> []
   \<and> length ''{"a":1,'' \<le> MAX_BUFFER_SIZE
   \<and> feed example_interpreter initial '' {"a":1, ''
       = Continue \<lparr>json_buffer = ''{"a":1,'', brace_count = 1, bracket_count = 0,
           in_string = False, escape_next = False\<rparr>\<close>
proof -
  let ?st1 = \<open>\<lparr>json_buffer = ''{"a":1,'', brace_count = 1, bracket_count = 0,
           in_string = False, escape_next = False\<rparr>\<close>
  have s1: \<open>strip '' {"a":1, '' = ''{"a":1,''\<close> by code_simp
  have s2: \<open>strip ''{"a":1,'' = ''{"a":1,''\<close> by code_simp
  have h1: \<open>strip '' {"a":1, '' = strip ''{"a":1,''\<close> by (simp only: s1 s2)
  have h2: \<open>strip '' {"a":1, '' \<noteq> []\<close> by (simp add: s1)
  have h3: \<open>length ''{"a":1,'' \<le> MAX_BUFFER_SIZE\<close>
    by (simp add: MAX_BUFFER_SIZE_def)
  have b: \<open>''{"a":1,'' = (if json_buffer initial = [] then strip '' {"a":1, ''
        else json_buffer initial @ [newline] @ strip '' {"a":1, '')\<close>
    by (simp add: s1 initial_def)
  have c: \<open>?st1 = scan_line (initial\<lparr>json_buffer := ''{"a":1,''\<rparr>) (strip '' {"a":1, '')\<close>
    by (simp only: s1) code_simp
  have n: "\<not> complete ?st1" by (simp add: complete_def)
  note L = line_handling [OF b c, of \<open>''{"a":1,''\<close> example_interpreter]
  from L h1 have e1: \<open>feed example_interpreter initial '' {"a":1, ''
      = feed example_interpreter initial ''{"a":1,''\<close>
    by blast
  from L h2 h3 n have e2: \<open>feed example_interpreter initial '' {"a":1, '' = Continue ?st1\<close>
    by presburger
  show ?thesis by (intro conjI h1 e1 h2 h3 e2)
qed

section \<open>What is yielded\<close>

lemma scan_atom_scalar: "scan_atom I s = Inr (v, r) \<Longrightarrow> \<not> is_container v"
  by (auto simp: scan_atom_def match_number_def parse_int_def Let_def
           split: if_splits option.splits prod.splits sum.splits)


lemma is_json_ws_space: "is_json_ws c \<Longrightarrow> is_space c"
  by (auto simp: is_json_ws_def is_space_def)

lemma skip_ws_id: "s \<noteq> [] \<Longrightarrow> \<not> is_json_ws (hd s) \<Longrightarrow> skip_ws s = s"
  by (simp add: skip_ws_def dropWhile_eq_self_iff)

lemma json_loads_Nil [simp]: "json_loads I [] = Inl JSONDecodeError"
  by (simp add: json_loads_def skip_ws_def)












section \<open>The size test\<close>

text \<open>
  A line of \<open>MAX_BUFFER_SIZE - 1\<close> characters: a string of the letter a, then \<^verbatim>\<open>]\<close>.
\<close>

definition big_line :: string where
  "big_line = dquote # replicate (MAX_BUFFER_SIZE - 4) (CHR ''a'') @ [dquote, CHR '']'']"

lemma scan_line_replicate_in_string:
  "in_string st \<Longrightarrow> \<not> escape_next st \<Longrightarrow> c \<noteq> backslash \<Longrightarrow> c \<noteq> dquote \<Longrightarrow>
   scan_line st (replicate n c) = st"
  by (induction n) (simp_all add: scan_char_def)

lemma scanstring_replicate:
  "scanstring (replicate n (CHR ''a'') @ dquote # r) = Some (replicate n 97, r)"
  by (induction n) (simp_all add: dquote_def backslash_def cons_fst_def)

lemma big_line_strip: "strip big_line = big_line"
  by (rule strip_id) (simp_all add: big_line_def dquote_def is_space_def)

lemma big_line_length: "length big_line = MAX_BUFFER_SIZE - 1"
  by (simp add: big_line_def MAX_BUFFER_SIZE_def)

lemma big_line_loads:
  assumes "recursion_room I \<noteq> 0"
  shows "json_loads I (CHR ''['' # newline # big_line)
    = Inr (JArray [JString (replicate (MAX_BUFFER_SIZE - 4) 97)])"
proof -
  have v: "parse_value I room (big_line) = Inr (JString (replicate (MAX_BUFFER_SIZE - 4) 97), [CHR '']''])"
    for room
    by (simp add: big_line_def parse_value.simps(2) scanstring_replicate)
  have a: "parse_array I room big_line = Inr ([JString (replicate (MAX_BUFFER_SIZE - 4) 97)], [])"
    for room
    by (subst parse_array.simps) (simp add: v skip_ws_def is_json_ws_def)
  have s: "skip_ws (newline # big_line) = big_line"
    by (simp add: skip_ws_def is_json_ws_def newline_def big_line_def dquote_def)
  have b: "big_line = dquote # tl big_line" by (simp add: big_line_def)
  have "parse_value I (recursion_room I) (CHR ''['' # newline # big_line)
      = Inr (JArray [JString (replicate (MAX_BUFFER_SIZE - 4) 97)], [])"
    apply (subst parse_value.simps(2))
    apply (simp add: s dquote_def assms)
    apply (subst b)
    apply (simp add: dquote_def)
    apply (simp add: b [symmetric, unfolded dquote_def] a)
    done
  then show ?thesis
    by (simp add: json_loads_def skip_ws_def is_json_ws_def)
qed

lemma bracket_feed:
  "feed I initial ''['' = Continue \<lparr>json_buffer = ''['', brace_count = 0, bracket_count = 1,
       in_string = False, escape_next = False\<rparr>"
proof -
  have s: "strip ''['' = ''[''" by code_simp
  show ?thesis
    by (rule feed_incomplete [OF s])
       (simp_all add: initial_def MAX_BUFFER_SIZE_def add_line_def scan_char_def complete_def dquote_def)
qed

text \<open>
  The half of C5 that holds: a pass whose buffer, after the line is added, stays below
  the bound does not raise the decode error of the transport.
\<close>

lemma below_ceiling_no_raise:
  assumes "length (add_line (json_buffer st) (strip line)) < MAX_BUFFER_SIZE"
  shows "feed I st line \<noteq> Raise (SDKJSONDecodeError m)"
proof -
  have "length (json_buffer st) + length (strip line)
      \<le> length (add_line (json_buffer st) (strip line))"
    by (simp add: add_line_def)
  with assms have "\<not> length (json_buffer st) + length (strip line) > MAX_BUFFER_SIZE"
    by simp
  with assms show ?thesis
    by (simp add: feed_def Let_def split: sum.splits decode_error.splits)
qed

text \<open>
  C5, at the failing input. After the line \<^verbatim>\<open>[\<close>, the line \<open>big_line\<close> passes the test of
  line 205, which does not count the line feed that joins the two: the buffer then holds
  \<open>MAX_BUFFER_SIZE + 1\<close> characters, nothing is raised, and the frame is yielded.
\<close>

theorem ceiling_off_by_one:
  "read_stdout example_interpreter initial [''['', big_line]
     = ([JArray [JString (replicate (MAX_BUFFER_SIZE - 4) 97)]], Inr initial)
   \<and> length (add_line ''['' (strip big_line)) = MAX_BUFFER_SIZE + 1"
proof -
  let ?st = "\<lparr>json_buffer = ''['', brace_count = 0, bracket_count = 1,
       in_string = False, escape_next = False\<rparr>"
  have len: "length (add_line ''['' big_line) = MAX_BUFFER_SIZE + 1"
    by (simp add: add_line_def big_line_length MAX_BUFFER_SIZE_def)
  have sc: "scan_line (?st\<lparr>json_buffer := add_line ''['' big_line\<rparr>) big_line
      = ?st\<lparr>json_buffer := add_line ''['' big_line, bracket_count := 0\<rparr>"
    by (simp add: big_line_def scan_line_append scan_char_def scan_line_replicate_in_string
          dquote_def backslash_def)
  have f: "feed example_interpreter ?st big_line = Yield (JArray [JString (replicate (MAX_BUFFER_SIZE - 4) 97)]) initial"
  proof (rule feed_yield [OF big_line_strip])
    show "big_line \<noteq> []" by (simp add: big_line_def)
    show "length (json_buffer ?st) + length big_line \<le> MAX_BUFFER_SIZE"
      by (simp add: big_line_length MAX_BUFFER_SIZE_def)
    show "scan_line (?st\<lparr>json_buffer := add_line (json_buffer ?st) big_line\<rparr>) big_line
      = scan_line (?st\<lparr>json_buffer := add_line (json_buffer ?st) big_line\<rparr>) big_line"
      by simp
    show "complete (scan_line (?st\<lparr>json_buffer := add_line (json_buffer ?st) big_line\<rparr>) big_line)"
      using sc by (simp add: complete_def add_line_def)
    show "json_loads example_interpreter (add_line (json_buffer ?st) big_line)
        = Inr (JArray [JString (replicate (MAX_BUFFER_SIZE - 4) 97)])"
      using big_line_loads [OF example_room] by (simp add: add_line_def)
  qed
  show ?thesis
    using len by (simp add: bracket_feed f big_line_strip)
qed



section \<open>The scanner on JSON texts\<close>

text \<open>
  The counters of the scanner against the decoder: on the text of one JSON value the
  scanner, started outside a string, ends in the state it started from (\<open>neutral\<close>); on
  the way neither counter is below its start and no line feed is met inside a string
  (\<open>inside\<close>); in an object or an array one of the counters is above its start after
  every proper non-empty prefix (\<open>opened\<close>, \<open>deeper\<close>). \<open>along P st s\<close> states \<open>P\<close> for
  every character of \<open>s\<close> and the state in which the scanner meets it.
\<close>

definition calm :: "scan_state \<Rightarrow> bool" where
  "calm st = (\<not> in_string st \<and> \<not> escape_next st)"

definition level_le :: "scan_state \<Rightarrow> scan_state \<Rightarrow> bool" where
  "level_le a b = (brace_count a \<le> brace_count b \<and> bracket_count a \<le> bracket_count b)"

fun along :: "(scan_state \<Rightarrow> char \<Rightarrow> bool) \<Rightarrow> scan_state \<Rightarrow> string \<Rightarrow> bool" where
  "along P st [] = True"
| "along P st (c # cs) = (P st c \<and> along P (scan_char st c) cs)"

definition inside :: "scan_state \<Rightarrow> scan_state \<Rightarrow> char \<Rightarrow> bool" where
  "inside b x c = (level_le b x \<and> (in_string x \<longrightarrow> c \<noteq> newline))"

definition deeper :: "scan_state \<Rightarrow> scan_state \<Rightarrow> char \<Rightarrow> bool" where
  "deeper b x c = (brace_count b < brace_count x \<or> bracket_count b < bracket_count x)"

definition quoted :: "scan_state \<Rightarrow> scan_state \<Rightarrow> char \<Rightarrow> bool" where
  "quoted b x c = (in_string x \<and> brace_count x = brace_count b
      \<and> bracket_count x = bracket_count b \<and> c \<noteq> newline)"

definition neutral :: "string \<Rightarrow> bool" where
  "neutral s = (\<forall>st. calm st \<longrightarrow> scan_line st s = st \<and> along (inside st) st s)"

definition opened :: "string \<Rightarrow> bool" where
  "opened s = (\<forall>st. calm st \<longrightarrow> s \<noteq> [] \<and> along (deeper st) (scan_char st (hd s)) (tl s))"

definition quiet :: "string \<Rightarrow> bool" where
  "quiet s = (\<forall>st. in_string st \<and> \<not> escape_next st \<longrightarrow>
      scan_line st s = st \<and> along (quoted st) st s)"

definition plain :: "char \<Rightarrow> bool" where
  "plain c = (c \<noteq> dquote \<and> c \<noteq> CHR ''{'' \<and> c \<noteq> CHR ''}'' \<and> c \<noteq> CHR ''['' \<and> c \<noteq> CHR '']'')"

definition strchar :: "char \<Rightarrow> bool" where
  "strchar c = (c \<noteq> dquote \<and> c \<noteq> backslash \<and> c \<noteq> newline)"

lemma along_append: "along P st (xs @ ys) = (along P st xs \<and> along P (scan_line st xs) ys)"
  by (induction xs arbitrary: st) auto

lemma along_mono: "along P st s \<Longrightarrow> (\<And>x c. P x c \<Longrightarrow> Q x c) \<Longrightarrow> along Q st s"
  by (induction s arbitrary: st) auto

lemma along_split: "along P st (xs @ c # ys) \<Longrightarrow> P (scan_line st xs) c"
  by (simp add: along_append)

lemma neutral_Nil: "neutral []"
  by (simp add: neutral_def)

lemma neutral_append: "neutral xs \<Longrightarrow> neutral ys \<Longrightarrow> neutral (xs @ ys)"
  by (simp add: neutral_def scan_line_append along_append)

lemma scan_char_plain: "\<not> in_string st \<Longrightarrow> plain c \<Longrightarrow> scan_char st c = st"
  by (simp add: scan_char_def plain_def)

lemma neutral_plain: "\<forall>c \<in> set s. plain c \<Longrightarrow> neutral s"
proof (induction s)
  case Nil
  show ?case by (rule neutral_Nil)
next
  case (Cons c s)
  then have "neutral s" and p: "plain c" by simp_all
  then show ?case
    by (simp add: neutral_def calm_def scan_char_plain inside_def level_le_def)
qed

lemma neutral_wrap_brace:
  assumes "neutral e"
  shows "neutral (CHR ''{'' # e @ [CHR ''}''])" and "opened (CHR ''{'' # e @ [CHR ''}''])"
proof -
  have step: "\<And>st. calm st \<Longrightarrow>
      scan_line st (CHR ''{'' # e @ [CHR ''}'']) = st
      \<and> along (inside st) st (CHR ''{'' # e @ [CHR ''}''])
      \<and> along (deeper st) (scan_char st (CHR ''{'')) (e @ [CHR ''}''])"
  proof -
    fix st assume c: "calm st"
    let ?s1 = "st\<lparr>brace_count := brace_count st + 1\<rparr>"
    have o: "scan_char st (CHR ''{'') = ?s1"
      using c by (simp add: scan_char_def calm_def dquote_def)
    have c1: "calm ?s1" using c by (simp add: calm_def)
    from assms c1 have e1: "scan_line ?s1 e = ?s1" and e2: "along (inside ?s1) ?s1 e"
      by (simp_all add: neutral_def)
    have cl: "scan_char ?s1 (CHR ''}'') = st"
      using c by (simp add: scan_char_def calm_def dquote_def)
    have i: "along (inside st) ?s1 e"
      using e2 by (rule along_mono) (simp add: inside_def level_le_def)
    have d: "along (deeper st) ?s1 e"
      using e2 by (rule along_mono) (simp add: inside_def deeper_def level_le_def)
    show "scan_line st (CHR ''{'' # e @ [CHR ''}'']) = st
      \<and> along (inside st) st (CHR ''{'' # e @ [CHR ''}''])
      \<and> along (deeper st) (scan_char st (CHR ''{'')) (e @ [CHR ''}''])"
      using c by (simp add: o scan_line_append e1 cl along_append i d inside_def deeper_def
            level_le_def calm_def)
  qed
  show "neutral (CHR ''{'' # e @ [CHR ''}''])"
    using step by (simp add: neutral_def)
  show "opened (CHR ''{'' # e @ [CHR ''}''])"
    using step by (simp add: opened_def)
qed

lemma neutral_wrap_bracket:
  assumes "neutral e"
  shows "neutral (CHR ''['' # e @ [CHR '']''])" and "opened (CHR ''['' # e @ [CHR '']''])"
proof -
  have step: "\<And>st. calm st \<Longrightarrow>
      scan_line st (CHR ''['' # e @ [CHR '']'']) = st
      \<and> along (inside st) st (CHR ''['' # e @ [CHR '']''])
      \<and> along (deeper st) (scan_char st (CHR ''['')) (e @ [CHR '']''])"
  proof -
    fix st assume c: "calm st"
    let ?s1 = "st\<lparr>bracket_count := bracket_count st + 1\<rparr>"
    have o: "scan_char st (CHR ''['') = ?s1"
      using c by (simp add: scan_char_def calm_def dquote_def)
    have c1: "calm ?s1" using c by (simp add: calm_def)
    from assms c1 have e1: "scan_line ?s1 e = ?s1" and e2: "along (inside ?s1) ?s1 e"
      by (simp_all add: neutral_def)
    have cl: "scan_char ?s1 (CHR '']'') = st"
      using c by (simp add: scan_char_def calm_def dquote_def)
    have i: "along (inside st) ?s1 e"
      using e2 by (rule along_mono) (simp add: inside_def level_le_def)
    have d: "along (deeper st) ?s1 e"
      using e2 by (rule along_mono) (simp add: inside_def deeper_def level_le_def)
    show "scan_line st (CHR ''['' # e @ [CHR '']'']) = st
      \<and> along (inside st) st (CHR ''['' # e @ [CHR '']''])
      \<and> along (deeper st) (scan_char st (CHR ''['')) (e @ [CHR '']''])"
      using c by (simp add: o scan_line_append e1 cl along_append i d inside_def deeper_def
            level_le_def calm_def)
  qed
  show "neutral (CHR ''['' # e @ [CHR '']''])"
    using step by (simp add: neutral_def)
  show "opened (CHR ''['' # e @ [CHR '']''])"
    using step by (simp add: opened_def)
qed

lemma quiet_Nil: "quiet []"
  by (simp add: quiet_def)

lemma quiet_append: "quiet xs \<Longrightarrow> quiet ys \<Longrightarrow> quiet (xs @ ys)"
  by (simp add: quiet_def scan_line_append along_append)

lemma quiet_strchars: "\<forall>c \<in> set s. strchar c \<Longrightarrow> quiet s"
proof (induction s)
  case Nil
  show ?case by (rule quiet_Nil)
next
  case (Cons c s)
  then have "quiet s" and p: "strchar c" by simp_all
  then show ?case
    by (simp add: quiet_def scan_char_def strchar_def quoted_def)
qed

lemma quiet_escape: "e \<noteq> newline \<Longrightarrow> quiet [backslash, e]"
  by (simp add: quiet_def scan_char_def quoted_def backslash_def newline_def)

lemma neutral_string:
  assumes "quiet body"
  shows "neutral (dquote # body @ [dquote])" and "newline \<notin> set (dquote # body @ [dquote])"
proof -
  have step: "\<And>st. calm st \<Longrightarrow>
      scan_line st (dquote # body @ [dquote]) = st
      \<and> along (inside st) st (dquote # body @ [dquote])"
  proof -
    fix st assume c: "calm st"
    let ?s1 = "st\<lparr>in_string := True\<rparr>"
    have o: "scan_char st dquote = ?s1"
      using c by (simp add: scan_char_def calm_def)
    have c1: "in_string ?s1 \<and> \<not> escape_next ?s1" using c by (simp add: calm_def)
    with assms have e1: "scan_line ?s1 body = ?s1" and e2: "along (quoted ?s1) ?s1 body"
      by (simp_all add: quiet_def)
    have cl: "scan_char ?s1 dquote = st"
      using c by (simp add: scan_char_def calm_def backslash_def dquote_def)
    have i: "along (inside st) ?s1 body"
      using e2 by (rule along_mono) (simp add: inside_def quoted_def level_le_def)
    have dn: "dquote \<noteq> newline" by (simp add: dquote_def newline_def)
    show "scan_line st (dquote # body @ [dquote]) = st
      \<and> along (inside st) st (dquote # body @ [dquote])"
      using c dn by (simp add: o scan_line_append e1 cl along_append i inside_def
            level_le_def calm_def)
  qed
  show "neutral (dquote # body @ [dquote])"
    using step by (simp add: neutral_def)
  have "\<forall>c \<in> set body. c \<noteq> newline"
  proof -
    have g: "\<And>st. along (quoted b) st body \<Longrightarrow> \<forall>c \<in> set body. c \<noteq> newline" for b
      by (induction body) (auto simp: quoted_def)
    from assms have "along (quoted (initial\<lparr>in_string := True\<rparr>)) (initial\<lparr>in_string := True\<rparr>) body"
      by (simp add: quiet_def initial_def)
    then show ?thesis by (rule g)
  qed
  then show "newline \<notin> set (dquote # body @ [dquote])"
    by (auto simp: dquote_def newline_def)
qed

text \<open>
  The characters of a number or a constant.
\<close>

definition atomchar :: "char \<Rightarrow> bool" where
  "atomchar c = (plain c \<and> c \<noteq> newline)"

lemma is_json_ws_plain: "is_json_ws c \<Longrightarrow> plain c"
  by (auto simp: is_json_ws_def plain_def dquote_def)

lemma skip_ws_split: "\<exists>w. s = w @ skip_ws s \<and> neutral w"
proof -
  have "\<forall>c \<in> set (takeWhile is_json_ws s). plain c"
    by (auto dest: set_takeWhileD is_json_ws_plain)
  then have "neutral (takeWhile is_json_ws s)" by (rule neutral_plain)
  moreover have "s = takeWhile is_json_ws s @ skip_ws s" by (simp add: skip_ws_def)
  ultimately show ?thesis by blast
qed

lemma hex_val_strchar: "hex_val c = Some v \<Longrightarrow> strchar c"
  by (auto simp: hex_val_def strchar_def dquote_def backslash_def newline_def Let_def
           split: if_splits)

lemma decode_uXXXX_text:
  assumes "decode_uXXXX s = Some u"
  shows "length (take 4 s) = 4" and "\<forall>c \<in> set (take 4 s). strchar c"
proof -
  from assms obtain a b c d where m: "map hex_val (take 4 s) = [Some a, Some b, Some c, Some d]"
    by (auto simp: decode_uXXXX_def split: list.splits option.splits)
  then have "length (map hex_val (take 4 s)) = 4" by simp
  then show "length (take 4 s) = 4" by simp
  show "\<forall>c \<in> set (take 4 s). strchar c"
  proof
    fix x assume "x \<in> set (take 4 s)"
    then have "hex_val x \<in> set (map hex_val (take 4 s))" by simp
    with m obtain v where "hex_val x = Some v" by auto
    then show "strchar x" by (rule hex_val_strchar)
  qed
qed

lemma quiet_hex: "decode_uXXXX s = Some u \<Longrightarrow> quiet (take 4 s)"
  by (rule quiet_strchars) (rule decode_uXXXX_text(2))

lemma backslash_table_newline: "backslash_table e = Some ch \<Longrightarrow> e \<noteq> newline"
  by (auto simp: backslash_table_def dquote_def backslash_def newline_def split: if_splits)

lemma scanstring_text:
  "scanstring s = Some (k, r) \<Longrightarrow> \<exists>body. s = body @ dquote # r \<and> quiet body"
proof (induction "length s" arbitrary: s k r rule: less_induct)
  case less
  from less.prems obtain c t where s: "s = c # t" by (cases s) auto
  show ?case
  proof (cases "c = dquote")
    case True
    with less.prems s have "r = t" by simp
    with True s quiet_Nil show ?thesis by auto
  next
    case nq: False
    show ?thesis
    proof (cases "c = backslash")
      case True
      with less.prems s nq obtain e t' where t: "t = e # t'" by (cases t) auto
      show ?thesis
      proof (cases "e = CHR ''u''")
        case u: True
        from less.prems s nq True t u obtain uni where d1: "decode_uXXXX t' = Some uni"
          by (auto split: option.splits)
        have l1: "length (take 4 t') = 4" using d1 by (rule decode_uXXXX_text(1))
        have q1: "quiet (take 4 t')" using d1 by (rule quiet_hex)
        have qe: "quiet [backslash, CHR ''u'']" by (rule quiet_escape) (simp add: newline_def)
        show ?thesis
        proof (cases "0xD800 \<le> uni \<and> uni \<le> 0xDBFF \<and> take 2 (drop 4 t') = [backslash, CHR ''u'']
                      \<and> (\<exists>uni2. decode_uXXXX (drop 6 t') = Some uni2 \<and> 0xDC00 \<le> uni2 \<and> uni2 \<le> 0xDFFF)")
          case True
          then obtain uni2 where d2: "decode_uXXXX (drop 6 t') = Some uni2" by blast
          from less.prems s nq \<open>c = backslash\<close> t u d1 True
          obtain k' where rec: "scanstring (drop 10 t') = Some (k', r)"
            by (auto simp: cons_fst_def split: option.splits if_splits)
          have "length (drop 10 t') < length s" using s t by simp
          from less.hyps [OF this rec] obtain body' where
            b: "drop 10 t' = body' @ dquote # r" and qb: "quiet body'" by blast
          have l2: "length (take 4 (drop 6 t')) = 4" using d2 by (rule decode_uXXXX_text(1))
          have q2: "quiet (take 4 (drop 6 t'))" using d2 by (rule quiet_hex)
          have "take 10 t' = take 4 t' @ take 2 (drop 4 t') @ take 4 (drop 6 t')"
            using take_add [of 4 6 t'] take_add [of 2 4 "drop 4 t'"] by simp
          then have tk: "take 10 t' = take 4 t' @ [backslash, CHR ''u''] @ take 4 (drop 6 t')"
            using True by simp
          have "quiet (take 10 t')"
            unfolding tk using q1 qe q2 by (intro quiet_append)
          then have "quiet ([backslash, CHR ''u''] @ take 10 t' @ body')"
            using qe qb by (intro quiet_append)
          moreover have "s = ([backslash, CHR ''u''] @ take 10 t' @ body') @ dquote # r"
            using s t u \<open>c = backslash\<close> b append_take_drop_id [of 10 t'] by (metis append.assoc append_Cons append_Nil)
          ultimately show ?thesis by blast
        next
          case False
          from less.prems s nq \<open>c = backslash\<close> t u d1 False
          obtain k' where rec: "scanstring (drop 4 t') = Some (k', r)"
            by (auto simp: cons_fst_def split: option.splits if_splits)
          have "length (drop 4 t') < length s" using s t by simp
          from less.hyps [OF this rec] obtain body' where
            b: "drop 4 t' = body' @ dquote # r" and qb: "quiet body'" by blast
          have "quiet ([backslash, CHR ''u''] @ take 4 t' @ body')"
            using qe q1 qb by (intro quiet_append)
          moreover have "s = ([backslash, CHR ''u''] @ take 4 t' @ body') @ dquote # r"
            using s t u \<open>c = backslash\<close> b append_take_drop_id [of 4 t'] by (metis append.assoc append_Cons append_Nil)
          ultimately show ?thesis by blast
        qed
      next
        case nu: False
        from less.prems s nq True t nu obtain ch k' where
          bt: "backslash_table e = Some ch" and rec: "scanstring t' = Some (k', r)"
          by (auto simp: cons_fst_def split: option.splits)
        have "length t' < length s" using s t by simp
        from less.hyps [OF this rec] obtain body' where
          b: "t' = body' @ dquote # r" and qb: "quiet body'" by blast
        have "quiet [backslash, e]" using bt by (intro quiet_escape backslash_table_newline)
        then have "quiet ([backslash, e] @ body')" using qb by (rule quiet_append)
        moreover have "s = ([backslash, e] @ body') @ dquote # r"
          using s t True b by simp
        ultimately show ?thesis by blast
      qed
    next
      case nb: False
      from less.prems s nq nb obtain k' where
        ge: "\<not> (of_char c :: nat) < 32" and rec: "scanstring t = Some (k', r)"
        by (auto simp: cons_fst_def split: if_splits)
      have "length t < length s" using s by simp
      from less.hyps [OF this rec] obtain body' where
        b: "t = body' @ dquote # r" and qb: "quiet body'" by blast
      have "strchar c" using nq nb ge by (auto simp: strchar_def newline_def)
      then have "quiet [c]" by (intro quiet_strchars) simp
      then have "quiet ([c] @ body')" using qb by (rule quiet_append)
      moreover have "s = ([c] @ body') @ dquote # r" using s b by simp
      ultimately show ?thesis by blast
    qed
  qed
qed

lemma is_digit_atomchar: "is_digit c \<Longrightarrow> atomchar c"
  by (auto simp: is_digit_def atomchar_def plain_def dquote_def newline_def)

lemma digits_atomchar: "\<forall>c \<in> set (takeWhile is_digit s). atomchar c"
  by (auto dest: set_takeWhileD is_digit_atomchar)

lemma literal_atomchar:
  "\<forall>c \<in> set ''-+.eEnulltruefalseNaNInfinity''. atomchar c"
  by (simp add: atomchar_def plain_def dquote_def newline_def)

lemma int_part_text:
  assumes "int_part s = Some (c, r)"
  shows "s = c @ r \<and> c \<noteq> [] \<and> (\<forall>x \<in> set c. atomchar x)"
proof -
  have m: "atomchar (CHR ''-'')" using literal_atomchar by simp
  show ?thesis
    using assms m digits_atomchar
    by (auto simp: int_part_def Let_def is_digit_atomchar split: list.splits if_splits)
qed

lemma frac_part_text:
  assumes "frac_part s = (c, r)"
  shows "s = c @ r \<and> (\<forall>x \<in> set c. atomchar x)"
proof -
  have m: "atomchar (CHR ''.'')" using literal_atomchar by simp
  show ?thesis
    using assms m digits_atomchar
    by (auto simp: frac_part_def is_digit_atomchar split: list.splits if_splits)
qed

lemma exp_part_text:
  assumes "exp_part s = (c, r)"
  shows "s = c @ r \<and> (\<forall>x \<in> set c. atomchar x)"
proof -
  have m: "atomchar (CHR ''e'')" "atomchar (CHR ''E'')" "atomchar (CHR ''-'')" "atomchar (CHR ''+'')"
    using literal_atomchar by simp_all
  show ?thesis
    using assms m digits_atomchar
    by (auto simp: exp_part_def Let_def is_digit_atomchar split: list.splits if_splits prod.splits)
qed

lemma match_number_text:
  assumes "match_number s = Some (i, f, e, r)"
  shows "s = (i @ f @ e) @ r \<and> i @ f @ e \<noteq> [] \<and> (\<forall>x \<in> set (i @ f @ e). atomchar x)"
proof -
  from assms obtain s1 where i: "int_part s = Some (i, s1)"
    by (auto simp: match_number_def split: option.splits prod.splits)
  obtain f' s2 where f: "frac_part s1 = (f', s2)" by (cases "frac_part s1")
  obtain e' s3 where e: "exp_part s2 = (e', s3)" by (cases "exp_part s2")
  from assms i f e have r: "r = s3" "f = f'" "e = e'"
    by (auto simp: match_number_def)
  from int_part_text [OF i] frac_part_text [OF f] exp_part_text [OF e] r
  show ?thesis by auto
qed

lemma startswith_text: "startswith s p \<Longrightarrow> s = p @ drop (length p) s"
  by (metis append_take_drop_id startswith_def)

lemma scan_atom_text:
  assumes "scan_atom I s = Inr (v, r)"
  shows "\<exists>c. s = c @ r \<and> c \<noteq> [] \<and> (\<forall>x \<in> set c. atomchar x)"
proof -
  let ?G = "\<exists>c. s = c @ r \<and> c \<noteq> [] \<and> (\<forall>x \<in> set c. atomchar x)"
  have lit: "?G" if a: "startswith s p" "r = drop (length p) s" "p \<noteq> []"
      "set p \<subseteq> set ''-+.eEnulltruefalseNaNInfinity''" for p
  proof -
    from a have "s = p @ r" using startswith_text by simp
    moreover have "\<forall>x \<in> set p. atomchar x" using a(4) literal_atomchar by blast
    ultimately show ?G using a(3) by blast
  qed
  consider (null) "startswith s ''null''" "r = drop 4 s"
    | (true) "startswith s ''true''" "r = drop 4 s"
    | (false) "startswith s ''false''" "r = drop 5 s"
    | (num) i f e where "match_number s = Some (i, f, e, r)"
    | (nan) "startswith s ''NaN''" "r = drop 3 s"
    | (inf) "startswith s ''Infinity''" "r = drop 8 s"
    | (ninf) "startswith s ''-Infinity''" "r = drop 9 s"
    using assms by (auto simp: scan_atom_def split: if_splits option.splits sum.splits)
  then show ?thesis
  proof cases
    case null
    then show ?thesis by (intro lit [of "''null''"]) (simp_all add: eval_nat_numeral)
  next
    case true
    then show ?thesis by (intro lit [of "''true''"]) (simp_all add: eval_nat_numeral)
  next
    case false
    then show ?thesis by (intro lit [of "''false''"]) (simp_all add: eval_nat_numeral)
  next
    case num
    from match_number_text [OF num] show ?thesis by blast
  next
    case nan
    then show ?thesis by (intro lit [of "''NaN''"]) (simp_all add: eval_nat_numeral)
  next
    case inf
    then show ?thesis by (intro lit [of "''Infinity''"]) (simp_all add: eval_nat_numeral)
  next
    case ninf
    then show ?thesis by (intro lit [of "''-Infinity''"]) (simp_all add: eval_nat_numeral)
  qed
qed

lemma neutral_atom: "\<forall>x \<in> set c. atomchar x \<Longrightarrow> neutral c \<and> newline \<notin> set c"
  using neutral_plain [of c] by (auto simp: atomchar_def)

text \<open>
  The text that the decoder takes from its input for a value, for the elements of an
  array up to the closing bracket, and for the members of an object up to the closing
  brace.
\<close>

definition value_text :: "string \<Rightarrow> json \<Rightarrow> string \<Rightarrow> bool" where
  "value_text s v r = (\<exists>c. s = c @ r \<and> c \<noteq> [] \<and> neutral c
      \<and> (is_container v \<longrightarrow> opened c) \<and> (\<not> is_container v \<longrightarrow> newline \<notin> set c))"

definition items_text :: "char \<Rightarrow> string \<Rightarrow> string \<Rightarrow> bool" where
  "items_text close s r = (\<exists>e. s = e @ close # r \<and> neutral e)"

lemma skip_ws_Cons_split: "skip_ws s = d # r \<Longrightarrow> \<exists>w. s = w @ d # r \<and> neutral w"
  using skip_ws_split [of s] by auto

lemma neutral_comma: "neutral [CHR '','']"
  by (rule neutral_plain) (simp add: plain_def dquote_def)

lemma neutral_colon: "neutral [CHR '':'']"
  by (rule neutral_plain) (simp add: plain_def dquote_def)


lemma parse_text:
  "(\<forall>room v r. parse_value I room s = Inr (v, r) \<longrightarrow> value_text s v r)
   \<and> (\<forall>room vs r. parse_array I room s = Inr (vs, r) \<longrightarrow> items_text (CHR '']'') s r)
   \<and> (\<forall>room ps r. parse_object I room s = Inr (ps, r)
        \<longrightarrow> items_text (CHR ''}'') (dquote # s) r)"
proof (induction "length s" arbitrary: s rule: less_induct)
  case less
  have IH1: "\<And>s' room v r. length s' < length s \<Longrightarrow> parse_value I room s' = Inr (v, r) \<Longrightarrow> value_text s' v r"
    and IH2: "\<And>s' room vs r. length s' < length s \<Longrightarrow> parse_array I room s' = Inr (vs, r)
        \<Longrightarrow> items_text (CHR '']'') s' r"
    and IH3: "\<And>s' room ps r. length s' < length s \<Longrightarrow> parse_object I room s' = Inr (ps, r)
        \<Longrightarrow> items_text (CHR ''}'') (dquote # s') r"
    using less.hyps by blast+
  have P1: "value_text s v r" if pv: "parse_value I room s = Inr (v, r)" for room v r
  proof -
    from pv obtain c t where s: "s = c # t" by (cases s) auto
    show ?thesis
    proof (cases "c = dquote")
      case True
      with pv s obtain k where k: "scanstring t = Some (k, r)" and v: "v = JString k"
        by (auto simp: parse_value.simps(2) split: option.splits)
      from scanstring_text [OF k] obtain body where
        t: "t = body @ dquote # r" and q: "quiet body" by blast
      have "s = (dquote # body @ [dquote]) @ r" using s t True by simp
      with neutral_string [OF q] v show ?thesis
        unfolding value_text_def by (intro exI [of _ "dquote # body @ [dquote]"]) simp
    next
      case nq: False
      show ?thesis
      proof (cases "c = CHR ''{''")
        case True
        with pv s nq obtain d t' where sk: "skip_ws t = d # t'"
          by (auto simp: parse_value.simps(2) split: list.splits if_splits)
        from skip_ws_Cons_split [OF sk] obtain w where t: "t = w @ d # t'" and w: "neutral w"
          by blast
        from pv s nq True sk consider
          (empty) "d = CHR ''}''" "v = JObject []" "r = t'"
          | (members) ps where "d = dquote" "parse_object I (room - 1) t' = Inr (ps, r)" "v = JObject (py_dict ps)"
          by (auto simp: parse_value.simps(2) split: if_splits sum.splits)
        then show ?thesis
        proof cases
          case empty
          have "s = (CHR ''{'' # w @ [CHR ''}'']) @ r" using s t True empty by simp
          with neutral_wrap_brace [OF w] empty show ?thesis
            unfolding value_text_def by (intro exI [of _ "CHR ''{'' # w @ [CHR ''}'']"]) simp
        next
          case members
          have "length t' < length s" using s t by simp
          from IH3 [OF this members(2)] obtain e where
            e: "dquote # t' = e @ CHR ''}'' # r" and ne: "neutral e"
            unfolding items_text_def by blast
          have n: "neutral (w @ e)" using w ne by (rule neutral_append)
          have "s = (CHR ''{'' # (w @ e) @ [CHR ''}'']) @ r" using s t True members(1) e by simp
          with neutral_wrap_brace [OF n] members show ?thesis
            unfolding value_text_def by (intro exI [of _ "CHR ''{'' # (w @ e) @ [CHR ''}'']"]) simp
        qed
      next
        case nb: False
        show ?thesis
        proof (cases "c = CHR ''[''")
          case True
          with pv s nq nb obtain d t' where sk: "skip_ws t = d # t'"
            by (auto simp: parse_value.simps(2) split: list.splits if_splits)
          from skip_ws_Cons_split [OF sk] obtain w where t: "t = w @ d # t'" and w: "neutral w"
            by blast
          from pv s nq nb True sk consider
            (empty) "d = CHR '']''" "v = JArray []" "r = t'"
            | (elements) vs where "parse_array I (room - 1) (d # t') = Inr (vs, r)" "v = JArray vs"
            by (auto simp: parse_value.simps(2) split: if_splits sum.splits)
          then show ?thesis
          proof cases
            case empty
            have "s = (CHR ''['' # w @ [CHR '']'']) @ r" using s t True empty by simp
            with neutral_wrap_bracket [OF w] empty show ?thesis
              unfolding value_text_def by (intro exI [of _ "CHR ''['' # w @ [CHR '']'']"]) simp
          next
            case elements
            have "length (d # t') < length s" using s t by simp
            from IH2 [OF this elements(1)] obtain e where
              e: "d # t' = e @ CHR '']'' # r" and ne: "neutral e"
              unfolding items_text_def by blast
            have n: "neutral (w @ e)" using w ne by (rule neutral_append)
            have "s = (CHR ''['' # (w @ e) @ [CHR '']'']) @ r" using s t True e by simp
            with neutral_wrap_bracket [OF n] elements show ?thesis
              unfolding value_text_def by (intro exI [of _ "CHR ''['' # (w @ e) @ [CHR '']'']"]) simp
          qed
        next
          case False
          with pv s nq nb have a: "scan_atom I s = Inr (v, r)"
            by (simp add: parse_value.simps(2))
          from scan_atom_text [OF a] obtain x where
            x: "s = x @ r" "x \<noteq> []" "\<forall>y \<in> set x. atomchar y" by blast
          from neutral_atom [OF x(3)] scan_atom_scalar [OF a] x(1,2) show ?thesis
            unfolding value_text_def by blast
        qed
      qed
    qed
  qed
  have P2: "items_text (CHR '']'') s r" if pa: "parse_array I room s = Inr (vs, r)" for room vs r
  proof -
    from pa obtain v r1 where pv: "parse_value I room s = Inr (v, r1)"
      by (subst (asm) parse_array.simps) (auto split: sum.splits)
    from P1 [OF pv] obtain c where c: "s = c @ r1" "c \<noteq> []" and nc: "neutral c"
      unfolding value_text_def by blast
    from pa pv obtain d r2 where sk: "skip_ws r1 = d # r2"
      by (subst (asm) parse_array.simps) (auto split: list.splits)
    from skip_ws_Cons_split [OF sk] obtain w where r1: "r1 = w @ d # r2" and w: "neutral w"
      by blast
    from pa pv sk consider
      (last) "d = CHR '']''" "r = r2"
      | (more) vs' where "d = CHR '',''" "length r2 < length s" "parse_array I room (skip_ws r2) = Inr (vs', r)"
      by (subst (asm) parse_array.simps) (auto split: if_splits sum.splits)
    then show ?thesis
    proof cases
      case last
      have "neutral (c @ w)" using nc w by (rule neutral_append)
      moreover have "s = (c @ w) @ CHR '']'' # r" using c r1 last by simp
      ultimately show ?thesis unfolding items_text_def by blast
    next
      case more
      from skip_ws_split [of r2] obtain w' where r2: "r2 = w' @ skip_ws r2" and w': "neutral w'"
        by blast
      have "length (skip_ws r2) < length s" using more(2) length_skip_ws [of r2] by simp
      from IH2 [OF this more(3)] obtain e where
        e: "skip_ws r2 = e @ CHR '']'' # r" and ne: "neutral e"
        unfolding items_text_def by blast
      have "neutral (c @ w @ [CHR '',''] @ w' @ e)"
        using nc w neutral_comma w' ne by (intro neutral_append)
      moreover have "s = (c @ w @ [CHR '',''] @ w' @ e) @ CHR '']'' # r"
        using c r1 more(1) r2 e by (metis append.assoc append_Cons append_Nil)
      ultimately show ?thesis unfolding items_text_def by blast
    qed
  qed
  have P3: "items_text (CHR ''}'') (dquote # s) r" if po: "parse_object I room s = Inr (ps, r)" for room ps r
  proof -
    from po obtain key r0 where ks: "scanstring s = Some (key, r0)"
      by (subst (asm) parse_object.simps) (auto split: option.splits)
    from scanstring_text [OF ks] obtain body where
      s: "s = body @ dquote # r0" and q: "quiet body" by blast
    have nk: "neutral (dquote # body @ [dquote])" using q by (rule neutral_string(1))
    from po ks obtain d r1 where sk0: "skip_ws r0 = d # r1"
      by (subst (asm) parse_object.simps) (auto split: list.splits)
    from skip_ws_Cons_split [OF sk0] obtain w0 where r0: "r0 = w0 @ d # r1" and w0: "neutral w0"
      by blast
    from po ks sk0 have d: "d = CHR '':''"
      by (subst (asm) parse_object.simps) (auto split: if_splits)
    from po ks sk0 d obtain v r2 where pv: "parse_value I room (skip_ws r1) = Inr (v, r2)"
      by (subst (asm) parse_object.simps) (auto split: sum.splits)
    from skip_ws_split [of r1] obtain w1 where r1: "r1 = w1 @ skip_ws r1" and w1: "neutral w1"
      by blast
    have l1: "length (skip_ws r1) < length s"
      using s r0 length_skip_ws [of r1] by simp
    from IH1 [OF l1 pv] obtain c where c: "skip_ws r1 = c @ r2" and nc: "neutral c"
      unfolding value_text_def by blast
    from po ks sk0 d pv obtain e r3 where sk2: "skip_ws r2 = e # r3"
      by (subst (asm) parse_object.simps) (auto split: list.splits)
    from skip_ws_Cons_split [OF sk2] obtain w2 where r2: "r2 = w2 @ e # r3" and w2: "neutral w2"
      by blast
    have pre: "dquote # s = ((dquote # body @ [dquote]) @ w0 @ [CHR '':''] @ w1 @ c @ w2) @ e # r3"
      using s r0 d r1 c r2 by (metis append.assoc append_Cons append_Nil)
    have npre: "neutral ((dquote # body @ [dquote]) @ w0 @ [CHR '':''] @ w1 @ c @ w2)"
      using nk w0 neutral_colon w1 nc w2 by (intro neutral_append)
    from po ks sk0 d pv sk2 consider
      (last) "e = CHR ''}''" "r = r3"
      | (more) q' r4 ps' where "e = CHR '',''" "skip_ws r3 = q' # r4" "q' = dquote"
          "length r4 < length s" "parse_object I room r4 = Inr (ps', r)"
      by (subst (asm) parse_object.simps)
         (auto split: if_splits list.splits sum.splits)
    then show ?thesis
    proof cases
      case last
      with pre npre show ?thesis unfolding items_text_def by blast
    next
      case more
      from skip_ws_Cons_split [OF more(2)] obtain w3 where
        r3: "r3 = w3 @ q' # r4" and w3: "neutral w3" by blast
      from IH3 [OF more(4,5)] obtain e' where
        e': "dquote # r4 = e' @ CHR ''}'' # r" and ne': "neutral e'"
        unfolding items_text_def by blast
      have "neutral ([CHR '',''] @ w3 @ e')"
        by (intro neutral_append neutral_comma w3 ne')
      with npre have "neutral (((dquote # body @ [dquote]) @ w0 @ [CHR '':''] @ w1 @ c @ w2)
          @ [CHR '',''] @ w3 @ e')"
        by (rule neutral_append)
      moreover have "dquote # s = (((dquote # body @ [dquote]) @ w0 @ [CHR '':''] @ w1 @ c @ w2)
          @ [CHR '',''] @ w3 @ e') @ CHR ''}'' # r"
        using pre more(1,3) r3 e' by (metis append.assoc append_Cons append_Nil)
      ultimately show ?thesis unfolding items_text_def by blast
    qed
  qed
  show ?case using P1 P2 P3 by blast
qed


text \<open>
  The test of line 246 without the buffer; a text on which the loop yields once: the test
  fails at every line feed and holds at the end. \<open>tail_text\<close> is what the later lines add
  to the buffer.
\<close>

definition level0 :: "scan_state \<Rightarrow> bool" where
  "level0 st = (brace_count st = 0 \<and> bracket_count st = 0 \<and> \<not> in_string st)"

definition framed :: "string \<Rightarrow> bool" where
  "framed T = ((\<forall>P Q. T = P @ newline # Q \<and> P \<noteq> [] \<longrightarrow>
        \<not> level0 (scan_line initial P) \<and> \<not> in_string (scan_line initial P))
      \<and> level0 (scan_line initial T))"

definition tail_text :: "string list \<Rightarrow> string" where
  "tail_text ls = concat (map (\<lambda>l. newline # strip l) ls)"

lemma calm_initial: "calm initial"
  by (simp add: calm_def initial_def)

lemma value_framed:
  assumes n: "neutral T" and o: "is_container v \<longrightarrow> opened T"
    and a: "\<not> is_container v \<longrightarrow> newline \<notin> set T"
  shows "framed T"
proof -
  from n calm_initial have e: "scan_line initial T = initial" and i: "along (inside initial) initial T"
    by (simp_all add: neutral_def)
  have l: "level0 (scan_line initial T)" by (simp only: e) (simp add: level0_def initial_def)
  have "\<not> level0 (scan_line initial P) \<and> \<not> in_string (scan_line initial P)"
    if T: "T = P @ newline # Q" and P: "P \<noteq> []" for P Q
  proof -
    from T have "newline \<in> set T" by simp
    with a have "is_container v" by blast
    with o calm_initial have d: "along (deeper initial) (scan_char initial (hd T)) (tl T)"
      by (simp add: opened_def)
    from P obtain h P' where P': "P = h # P'" by (cases P) auto
    with T d have "along (deeper initial) (scan_char initial h) (P' @ newline # Q)" by simp
    then have "deeper initial (scan_line (scan_char initial h) P') newline" by (rule along_split)
    then have 1: "\<not> level0 (scan_line initial P)"
      by (auto simp: P' deeper_def level0_def initial_def)
    from i T have "inside initial (scan_line initial P) newline" by (simp add: along_split)
    then have 2: "\<not> in_string (scan_line initial P)" by (simp add: inside_def)
    from 1 2 show ?thesis by simp
  qed
  with l show ?thesis unfolding framed_def by blast
qed

lemma loads_framed:
  assumes j: "json_loads I T = Inr v" and h: "\<not> is_space (hd T)" and l: "\<not> is_space (last T)"
  shows "framed T"
proof -
  from j have ne: "T \<noteq> []" by auto
  with h is_json_ws_space have "skip_ws T = T" by (auto intro: skip_ws_id)
  with j obtain r where pv: "parse_value I (recursion_room I) T = Inr (v, r)" and r: "skip_ws r = []"
    by (auto simp: json_loads_def split: sum.splits if_splits)
  from parse_text [of I T] pv have "value_text T v r" by blast
  then obtain c where c: "T = c @ r" "neutral c" "is_container v \<longrightarrow> opened c"
      "\<not> is_container v \<longrightarrow> newline \<notin> set c"
    unfolding value_text_def by blast
  have "r = []"
  proof (rule ccontr)
    assume nr: "r \<noteq> []"
    then have "last T = last r" using c(1) by simp
    moreover have "last r \<in> set r" using nr by simp
    moreover have "\<forall>x \<in> set r. is_json_ws x" using r by (simp add: skip_ws_def)
    ultimately show False using l is_json_ws_space by auto
  qed
  with c have "neutral T" "is_container v \<longrightarrow> opened T" "\<not> is_container v \<longrightarrow> newline \<notin> set T"
    by simp_all
  then show ?thesis by (rule value_framed)
qed

lemma scan_char_buffer: "scan_char (st\<lparr>json_buffer := b\<rparr>) c = (scan_char st c)\<lparr>json_buffer := b\<rparr>"
  by (simp add: scan_char_def)

lemma scan_line_buffer: "scan_line (st\<lparr>json_buffer := b\<rparr>) s = (scan_line st s)\<lparr>json_buffer := b\<rparr>"
  by (induction s arbitrary: st) (simp_all add: scan_char_buffer)

lemma complete_buffer: "complete (st\<lparr>json_buffer := b\<rparr>) = (b \<noteq> [] \<and> level0 st)"
  by (auto simp: complete_def level0_def)

lemma scan_char_newline: "\<not> in_string st \<Longrightarrow> scan_char st newline = st"
  by (rule scan_char_plain) (simp_all add: plain_def newline_def dquote_def)

lemma run_rest:
  assumes "\<forall>l \<in> set ls. strip l \<noteq> []" and "B \<noteq> []"
    and "framed (B @ tail_text ls)" and "json_loads I (B @ tail_text ls) = Inr v"
    and "length (B @ tail_text ls) \<le> MAX_BUFFER_SIZE" and "ls \<noteq> []"
  shows "read_stdout I ((scan_line initial B)\<lparr>json_buffer := B\<rparr>) ls = ([v], Inr initial)
    \<and> (\<forall>n < length ls. fst (read_stdout I ((scan_line initial B)\<lparr>json_buffer := B\<rparr>) (take n ls)) = [])"
  using assms
proof (induction ls arbitrary: B)
  case Nil
  then show ?case by simp
next
  case (Cons l ls)
  let ?st = "(scan_line initial B)\<lparr>json_buffer := B\<rparr>"
  let ?B' = "B @ newline # strip l"
  let ?st1 = "(scan_line initial ?B')\<lparr>json_buffer := ?B'\<rparr>"
  let ?T = "B @ tail_text (l # ls)"
  have T: "?T = ?B' @ tail_text ls" by (simp add: tail_text_def)
  have sl: "strip l \<noteq> []" using Cons.prems(1) by simp
  from Cons.prems(3) \<open>B \<noteq> []\<close> have "\<not> in_string (scan_line initial B)"
    unfolding framed_def tail_text_def by auto
  then have sc: "scan_line initial ?B' = scan_line (scan_line initial B) (strip l)"
    by (simp add: scan_line_append scan_char_newline)
  have al0: "add_line B (strip l) = ?B'"
    using \<open>B \<noteq> []\<close> by (simp add: add_line_def)
  then have al: "add_line (json_buffer ?st) (strip l) = ?B'"
    by simp
  have st1: "scan_line (?st\<lparr>json_buffer := add_line (json_buffer ?st) (strip l)\<rparr>) (strip l) = ?st1"
    by (simp add: al0 scan_line_buffer sc)
  have size: "length (json_buffer ?st) + length (strip l) \<le> MAX_BUFFER_SIZE"
    using Cons.prems(5) by (simp add: T)
  show ?case
  proof (cases "ls = []")
    case True
    then have TB: "?T = ?B'" by (simp add: T tail_text_def)
    from Cons.prems(3) have "level0 (scan_line initial ?B')"
      unfolding framed_def TB by simp
    then have c: "complete ?st1" by (simp add: complete_buffer)
    have j: "json_loads I (add_line (json_buffer ?st) (strip l)) = Inr v"
      using Cons.prems(4) by (simp only: al TB)
    have "feed I ?st l = Yield v initial"
      using sl size st1 [symmetric] c j by (intro feed_yield [where ls = "strip l"]) simp_all
    with True show ?thesis by simp
  next
    case False
    then obtain l2 ls2 where ls: "ls = l2 # ls2" by (cases ls) auto
    then have "?T = ?B' @ newline # (strip l2 @ tail_text ls2)" by (simp add: T tail_text_def)
    with Cons.prems(3) have "\<not> level0 (scan_line initial ?B')"
      unfolding framed_def by (metis Nil_is_append_conv list.distinct(1))
    then have c: "\<not> complete ?st1" by (simp add: complete_buffer)
    have f: "feed I ?st l = Continue ?st1"
      using sl size st1 [symmetric] c by (intro feed_incomplete [where ls = "strip l"]) simp_all
    have IH: "read_stdout I ?st1 ls = ([v], Inr initial)
      \<and> (\<forall>n < length ls. fst (read_stdout I ?st1 (take n ls)) = [])"
      using Cons.prems False by (intro Cons.IH) (simp_all only: T [symmetric], simp_all)
    have "fst (read_stdout I ?st (take n (l # ls))) = []" if "n < length (l # ls)" for n
    proof (cases n)
      case 0
      then show ?thesis by simp
    next
      case (Suc m)
      with that have "m < length ls" by simp
      with IH have "fst (read_stdout I ?st1 (take m ls)) = []" by blast
      with Suc f show ?thesis by simp
    qed
    with IH f show ?thesis by simp
  qed
qed

lemma join_tail: "join [newline] (map strip (l # ls)) = strip l @ tail_text ls"
  by (induction ls arbitrary: l) (simp_all add: tail_text_def)

lemma last_tail_text:
  "\<forall>l \<in> set ls. strip l \<noteq> [] \<Longrightarrow> ls \<noteq> [] \<Longrightarrow> last (tail_text ls) = last (strip (last ls))"
proof (induction ls)
  case Nil
  then show ?case by simp
next
  case (Cons l ls)
  show ?case
  proof (cases "ls = []")
    case True
    with Cons.prems show ?thesis by (simp add: tail_text_def)
  next
    case False
    then have "tail_text ls \<noteq> []" by (cases ls) (simp_all add: tail_text_def)
    then have "last (tail_text (l # ls)) = last (tail_text ls)"
      by (simp add: tail_text_def)
    with Cons False show ?thesis by simp
  qed
qed

lemma tail_text_Nil_iff: "tail_text ls = [] \<longleftrightarrow> ls = []"
  by (cases ls) (simp_all add: tail_text_def)

lemma frame_run:
  assumes "lines \<noteq> []" and "\<forall>l \<in> set lines. strip l \<noteq> []"
    and "json_loads I (join [newline] (map strip lines)) = Inr v"
    and "length (join [newline] (map strip lines)) \<le> MAX_BUFFER_SIZE"
  shows "read_stdout I initial lines = ([v], Inr initial)
    \<and> (\<forall>n < length lines. fst (read_stdout I initial (take n lines)) = [])"
proof -
  from assms(1) obtain l ls where lines: "lines = l # ls" by (cases lines) auto
  let ?B = "strip l"
  let ?T = "?B @ tail_text ls"
  let ?st1 = "(scan_line initial ?B)\<lparr>json_buffer := ?B\<rparr>"
  have T: "join [newline] (map strip lines) = ?T" unfolding lines by (rule join_tail)
  have B: "?B \<noteq> []" and nb: "\<forall>l \<in> set ls. strip l \<noteq> []" using assms(2) lines by simp_all
  have j: "json_loads I ?T = Inr v" using assms(3) by (simp only: T)
  have len: "length ?T \<le> MAX_BUFFER_SIZE" using assms(4) by (simp only: T)
  have hd: "\<not> is_space (hd ?T)" using B strip_ends(1) [OF B] by simp
  have "last ?T = last (strip (last lines))"
    using B nb last_tail_text [OF nb] by (cases "ls = []") (simp_all add: lines tail_text_Nil_iff)
  moreover have "strip (last lines) \<noteq> []" using assms(1,2) by simp
  ultimately have "\<not> is_space (last ?T)" using strip_ends(2) by simp
  with j hd have fr: "framed ?T" by (intro loads_framed)
  have al: "add_line (json_buffer initial) ?B = ?B" by (simp add: add_line_def initial_def)
  have st1: "scan_line (initial\<lparr>json_buffer := add_line (json_buffer initial) ?B\<rparr>) ?B = ?st1"
    by (simp only: al scan_line_buffer)
  have size: "length (json_buffer initial) + length ?B \<le> MAX_BUFFER_SIZE"
    using len by (simp add: initial_def)
  show ?thesis
  proof (cases "ls = []")
    case True
    then have TB: "?T = ?B" by (simp add: tail_text_def)
    from fr have "level0 (scan_line initial ?B)" unfolding framed_def TB by simp
    with B have c: "complete ?st1" by (simp add: complete_buffer)
    have jb: "json_loads I (add_line (json_buffer initial) ?B) = Inr v"
      using j by (simp only: al TB)
    have "feed I initial l = Yield v initial"
      using B size st1 [symmetric] c jb by (intro feed_yield [where ls = ?B]) simp_all
    with True lines show ?thesis by simp
  next
    case False
    then obtain l2 ls2 where ls: "ls = l2 # ls2" by (cases ls) auto
    then have "?T = ?B @ newline # (strip l2 @ tail_text ls2)" by (simp add: tail_text_def)
    with fr B have "\<not> level0 (scan_line initial ?B)"
      unfolding framed_def by blast
    then have c: "\<not> complete ?st1" by (simp add: complete_buffer)
    have f: "feed I initial l = Continue ?st1"
      using B size st1 [symmetric] c by (intro feed_incomplete [where ls = ?B]) simp_all
    have R: "read_stdout I ?st1 ls = ([v], Inr initial)
      \<and> (\<forall>n < length ls. fst (read_stdout I ?st1 (take n ls)) = [])"
      using nb B fr j len False by (rule run_rest)
    have "fst (read_stdout I initial (take n lines)) = []" if "n < length lines" for n
    proof (cases n)
      case 0
      then show ?thesis by simp
    next
      case (Suc m)
      with that lines have "m < length ls" by simp
      with R have "fst (read_stdout I ?st1 (take m ls)) = []" by blast
      with Suc f lines show ?thesis by simp
    qed
    with R f lines show ?thesis by simp
  qed
qed

text \<open>
  Blank lines between the lines of a frame: the loop passes over them (line 198), so it
  reads a stream as it reads the stream without its blank lines.
\<close>

lemma read_stdout_filter:
  "read_stdout I st (filter (\<lambda>l. strip l \<noteq> []) ls) = read_stdout I st ls"
proof (induction ls arbitrary: st)
  case Nil
  then show ?case by simp
next
  case (Cons l ls)
  show ?case
  proof (cases "strip l = []")
    case True
    with Cons show ?thesis by (simp add: feed_blank)
  next
    case False
    with Cons show ?thesis by (cases "feed I st l") simp_all
  qed
qed

lemma filter_take:
  "filter P (take n xs) = take (length (filter P (take n xs))) (filter P xs)"
proof -
  have "filter P xs = filter P (take n xs) @ filter P (drop n xs)"
    by (metis append_take_drop_id filter_append)
  then show ?thesis by simp
qed

lemma filter_take_less:
  assumes "\<exists>x \<in> set (drop n xs). P x"
  shows "length (filter P (take n xs)) < length (filter P xs)"
proof -
  have "filter P xs = filter P (take n xs) @ filter P (drop n xs)"
    by (metis append_take_drop_id filter_append)
  moreover have "filter P (drop n xs) \<noteq> []" using assms by (simp add: filter_empty_conv)
  ultimately show ?thesis by simp
qed

lemma filter_take_all:
  assumes "\<forall>x \<in> set (drop n xs). \<not> P x"
  shows "filter P (take n xs) = filter P xs"
proof -
  have "filter P xs = filter P (take n xs) @ filter P (drop n xs)"
    by (metis append_take_drop_id filter_append)
  moreover have "filter P (drop n xs) = []" using assms by (simp add: filter_empty_conv)
  ultimately show ?thesis by simp
qed

lemma strip_filter:
  "filter (\<lambda>l. l \<noteq> []) (map strip ls) = map strip (filter (\<lambda>l. strip l \<noteq> []) ls)"
  by (induction ls) simp_all

lemma frame_run_lines:
  assumes "json_loads I (join [newline] (filter (\<lambda>l. l \<noteq> []) (map strip lines))) = Inr v"
    and "length (join [newline] (filter (\<lambda>l. l \<noteq> []) (map strip lines))) \<le> MAX_BUFFER_SIZE"
  shows "read_stdout I initial lines = ([v], Inr initial)
    \<and> (\<forall>n. (\<exists>l \<in> set (drop n lines). strip l \<noteq> [])
          \<longrightarrow> fst (read_stdout I initial (take n lines)) = [])
    \<and> (\<forall>n. (\<forall>l \<in> set (drop n lines). strip l = [])
          \<longrightarrow> read_stdout I initial (take n lines) = ([v], Inr initial))"
proof -
  let ?P = "\<lambda>l. strip l \<noteq> []"
  let ?F = "filter ?P lines"
  have j: "json_loads I (join [newline] (map strip ?F)) = Inr v"
    using assms(1) by (simp only: strip_filter)
  have len: "length (join [newline] (map strip ?F)) \<le> MAX_BUFFER_SIZE"
    using assms(2) by (simp only: strip_filter)
  have ne: "?F \<noteq> []"
  proof
    assume "?F = []"
    with j show False by simp
  qed
  have nb: "\<forall>l \<in> set ?F. strip l \<noteq> []" by simp
  from frame_run [OF ne nb j len]
  have a: "read_stdout I initial ?F = ([v], Inr initial)"
    and b: "\<forall>n < length ?F. fst (read_stdout I initial (take n ?F)) = []"
    by blast+
  have 1: "read_stdout I initial lines = ([v], Inr initial)"
    using a by (simp only: read_stdout_filter)
  have 2: "fst (read_stdout I initial (take n lines)) = []"
    if "\<exists>l \<in> set (drop n lines). strip l \<noteq> []" for n
  proof -
    let ?m = "length (filter ?P (take n lines))"
    from that have "?m < length ?F" by (rule filter_take_less)
    with b have "fst (read_stdout I initial (take ?m ?F)) = []" by blast
    moreover have "filter ?P (take n lines) = take ?m ?F" by (rule filter_take)
    ultimately have "fst (read_stdout I initial (filter ?P (take n lines))) = []" by simp
    then show ?thesis by (simp only: read_stdout_filter)
  qed
  have 3: "read_stdout I initial (take n lines) = ([v], Inr initial)"
    if "\<forall>l \<in> set (drop n lines). strip l = []" for n
  proof -
    from that have "\<forall>l \<in> set (drop n lines). \<not> strip l \<noteq> []" by simp
    then have "filter ?P (take n lines) = ?F" by (rule filter_take_all)
    with a have "read_stdout I initial (filter ?P (take n lines)) = ([v], Inr initial)" by simp
    then show ?thesis by (simp only: read_stdout_filter)
  qed
  from 1 2 3 show ?thesis by blast
qed

text \<open>
  Texts used below: two lines that split a frame inside a string, a string on one line
  that is longer than \<open>MAX_BUFFER_SIZE\<close>, and an integer of 4301 digits, one more than the
  default of \<^verbatim>\<open>sys.get_int_max_str_digits()\<close>.
\<close>

definition huge_string :: string where
  "huge_string = dquote # replicate MAX_BUFFER_SIZE (CHR ''a'') @ [dquote]"

definition long_digits :: string where
  "long_digits = replicate 4301 (CHR ''1'')"

lemma xy_feed1: \<open>feed I initial ''{"a":"x''
    = Continue \<lparr>json_buffer = ''{"a":"x'', brace_count = 1, bracket_count = 0,
        in_string = True, escape_next = False\<rparr>\<close>
proof -
  have s: \<open>strip ''{"a":"x'' = ''{"a":"x''\<close> by code_simp
  have i: \<open>scan_line (initial\<lparr>json_buffer := add_line (json_buffer initial) ''{"a":"x''\<rparr>) ''{"a":"x''
      = \<lparr>json_buffer = ''{"a":"x'', brace_count = 1, bracket_count = 0,
        in_string = True, escape_next = False\<rparr>\<close>
    by code_simp
  show ?thesis
    by (rule feed_incomplete [OF s _ _ i [symmetric]])
       (simp_all add: initial_def MAX_BUFFER_SIZE_def complete_def)
qed

lemma xy_loads:
  \<open>recursion_room I \<noteq> 0 \<Longrightarrow> json_loads I (''{"a":"x'' @ [newline] @ ''y"}'') = Inl JSONDecodeError\<close>
  by (simp add: decoder_eval newline_def)

lemma xy_feed2:
  assumes "recursion_room I \<noteq> 0"
  shows \<open>feed I \<lparr>json_buffer = ''{"a":"x'', brace_count = 1, bracket_count = 0,
        in_string = True, escape_next = False\<rparr> ''y"}''
    = Continue \<lparr>json_buffer = ''{"a":"x'' @ [newline] @ ''y"}'', brace_count = 0, bracket_count = 0,
        in_string = False, escape_next = False\<rparr>\<close>
proof -
  let ?st = \<open>\<lparr>json_buffer = ''{"a":"x'', brace_count = 1, bracket_count = 0,
        in_string = True, escape_next = False\<rparr>\<close>
  have s: \<open>strip ''y"}'' = ''y"}''\<close> by code_simp
  have i: \<open>scan_line (?st\<lparr>json_buffer := add_line (json_buffer ?st) ''y"}''\<rparr>) ''y"}''
      = \<lparr>json_buffer = ''{"a":"x'' @ [newline] @ ''y"}'', brace_count = 0, bracket_count = 0,
        in_string = False, escape_next = False\<rparr>\<close>
    by code_simp
  have b: \<open>add_line (json_buffer ?st) ''y"}'' = ''{"a":"x'' @ [newline] @ ''y"}''\<close>
    by (simp add: add_line_def)
  have j: \<open>json_loads I (''{"a":"x'' @ [newline] @ ''y"}'') = Inl JSONDecodeError\<close>
    using assms by (rule xy_loads)
  have w: \<open>startswith (''{"a":"x'' @ [newline] @ ''y"}'') ''{''\<close> by code_simp
  show ?thesis
    apply (rule feed_pending [OF s _ _ i [symmetric]])
         apply (simp_all only: b j w)
      apply (simp_all add: MAX_BUFFER_SIZE_def complete_def)
    done
qed

lemma huge_string_loads:
  "json_loads I huge_string = Inr (JString (replicate MAX_BUFFER_SIZE 97))"
  by (simp add: json_loads_def skip_ws_def is_json_ws_def huge_string_def dquote_def
        parse_value.simps(2) scanstring_replicate [unfolded dquote_def])

lemma huge_string_feed:
  "feed I initial huge_string
     = Raise (SDKJSONDecodeError ''JSON buffer exceeded 52428800 bytes. Response too large.'')"
proof -
  have s: "strip huge_string = huge_string"
    by (rule strip_id) (simp_all add: huge_string_def dquote_def is_space_def)
  show ?thesis
    by (rule feed_too_large) (simp_all add: s, simp_all add: huge_string_def)
qed

lemma digits_number:
  assumes "0 < n" and "r = [] \<or> r = ''x''"
  shows "match_number (replicate n (CHR ''1'') @ r) = Some (replicate n (CHR ''1''), [], [], r)"
proof -
  from assms(1) obtain m where n: "n = Suc m" by (cases n) auto
  have d: "\<forall>c \<in> set (replicate m (CHR ''1'')). is_digit c" by (simp add: is_digit_def)
  have t: "takeWhile is_digit r = []" and dr: "dropWhile is_digit r = r"
    using assms(2) by (auto simp: is_digit_def)
  have tk: "takeWhile is_digit (replicate m (CHR ''1'') @ r) = replicate m (CHR ''1'')"
    using d by (subst takeWhile_append2) (simp_all add: t)
  have dk: "dropWhile is_digit (replicate m (CHR ''1'') @ r) = r"
    using d by (subst dropWhile_append2) (simp_all add: dr)
  have i: "int_part (replicate n (CHR ''1'') @ r) = Some (replicate n (CHR ''1''), r)"
    by (simp add: n int_part_def tk dk is_digit_def)
  have f: "frac_part r = ([], r)" using assms(2) by (auto simp: frac_part_def)
  have e: "exp_part r = ([], r)" using assms(2) by (auto simp: exp_part_def)
  show ?thesis by (simp add: match_number_def i f e)
qed

lemma digits_parse_int:
  "parse_int I (replicate n (CHR ''1'')) =
     (if int_max_str_digits I \<noteq> 0 \<and> n > 640 \<and> n > int_max_str_digits I then Inl ValueError
      else Inr (JInt (int_of_text (replicate n (CHR ''1'')))))"
  by (simp add: parse_int_def Let_def str_digits_check_threshold_def is_digit_def filter_replicate)

lemma digits_value:
  assumes "0 < n" and "r = [] \<or> r = ''x''"
  shows "parse_value I room (replicate n (CHR ''1'') @ r) =
     (case parse_int I (replicate n (CHR ''1'')) of Inl e \<Rightarrow> Inl e | Inr v \<Rightarrow> Inr (v, r))"
proof -
  let ?L = "replicate n (CHR ''1'') @ r"
  from assms(1) obtain m where n: "n = Suc m" by (cases n) auto
  have c: "?L = CHR ''1'' # replicate m (CHR ''1'') @ r" by (simp add: n)
  have s: "\<not> startswith ?L p" if "p \<noteq> []" "hd p \<noteq> CHR ''1''" for p
    using that by (cases p) (simp_all add: startswith_def c)
  have "parse_value I room ?L = scan_atom I ?L"
    by (simp only: c) (simp add: parse_value.simps(2) dquote_def)
  also have "\<dots> = (case parse_int I (replicate n (CHR ''1'')) of
        Inl e \<Rightarrow> Inl e | Inr v \<Rightarrow> Inr (v, r))"
    by (simp add: scan_atom_def s digits_number [OF assms])
  finally show ?thesis .
qed

lemma digits_loads:
  assumes "0 < n" and "r = [] \<or> r = ''x''"
  shows "json_loads I (replicate n (CHR ''1'') @ r) =
    (if int_max_str_digits I \<noteq> 0 \<and> n > 640 \<and> n > int_max_str_digits I then Inl ValueError
     else if r = [] then Inr (JInt (int_of_text (replicate n (CHR ''1''))))
     else Inl JSONDecodeError)"
proof -
  let ?L = "replicate n (CHR ''1'') @ r"
  from assms(1) obtain m where n: "n = Suc m" by (cases n) auto
  have c: "?L = CHR ''1'' # replicate m (CHR ''1'') @ r" by (simp add: n)
  have sk: "skip_ws ?L = ?L"
    by (simp only: c) (simp add: skip_ws_def is_json_ws_def)
  have r: "skip_ws r = r" using assms(2) by (auto simp: skip_ws_def is_json_ws_def)
  have e: "skip_ws [] = []" by (simp add: skip_ws_def)
  show ?thesis
    by (simp add: json_loads_def sk r e digits_value [OF assms] digits_parse_int)
qed

lemma digits_feed:
  assumes "0 < n" and "r = [] \<or> r = ''x''" and "n + length r \<le> MAX_BUFFER_SIZE"
    and "int_max_str_digits I \<noteq> 0" and "n > 640" and "n > int_max_str_digits I"
  shows "feed I initial (replicate n (CHR ''1'') @ r) = Raise PyValueError"
proof -
  let ?L = "replicate n (CHR ''1'') @ r"
  from assms(1) obtain m where n: "n = Suc m" by (cases n) auto
  have c: "?L = CHR ''1'' # replicate m (CHR ''1'') @ r" by (simp add: n)
  have ne: "?L \<noteq> []" by (simp add: c)
  have h: "\<not> is_space (hd ?L)" by (simp only: c) (simp add: is_space_def)
  have l: "\<not> is_space (last ?L)" using assms(2) by (auto simp: n is_space_def)
  have s: "strip ?L = ?L" using ne h l by (rule strip_id)
  have "\<forall>x \<in> set ?L. plain x" using assms(2) by (auto simp: plain_def dquote_def)
  then have "neutral ?L" by (rule neutral_plain)
  moreover have "calm (initial\<lparr>json_buffer := ?L\<rparr>)" by (simp add: calm_def initial_def)
  ultimately have sc: "scan_line (initial\<lparr>json_buffer := ?L\<rparr>) ?L = initial\<lparr>json_buffer := ?L\<rparr>"
    by (simp add: neutral_def)
  have b: "add_line (json_buffer initial) ?L = ?L" by (simp add: add_line_def initial_def)
  have j: "json_loads I ?L = Inl ValueError"
    using digits_loads [OF assms(1,2)] assms(4,5,6) by simp
  have cp: "complete (initial\<lparr>json_buffer := ?L\<rparr>)"
    using ne by (simp add: complete_def initial_def)
  have sz: "length (json_buffer initial) + length ?L \<le> MAX_BUFFER_SIZE"
    using assms(3) by (simp add: initial_def)
  show ?thesis
  proof (rule feed_value_error [OF s ne sz])
    show "initial\<lparr>json_buffer := ?L\<rparr>
        = scan_line (initial\<lparr>json_buffer := add_line (json_buffer initial) ?L\<rparr>) ?L"
      by (simp only: b sc)
    show "complete (initial\<lparr>json_buffer := ?L\<rparr>)" by (rule cp)
    show "json_loads I (add_line (json_buffer initial) ?L) = Inl ValueError"
      by (simp only: b j)
  qed
qed

lemma abc_filter:
  \<open>filter (\<lambda>l. l \<noteq> []) (map strip [''{"a":1,'', '' '', ''"b":[1,2,'', ''3]}'', []])
     = [''{"a":1,'', ''"b":[1,2,'', ''3]}'']\<close>
  by code_simp

lemma abc_join: \<open>join [newline] [''{"a":1,'', ''"b":[1,2,'', ''3]}'']
    = ''{"a":1,'' @ [newline] @ ''"b":[1,2,'' @ [newline] @ ''3]}''\<close>
  by simp

lemma abc_loads:
  \<open>recursion_room I > 1 \<Longrightarrow>
   json_loads I (''{"a":1,'' @ [newline] @ ''"b":[1,2,'' @ [newline] @ ''3]}'')
    = Inr (JObject [([97], JInt 1), ([98], JArray [JInt 1, JInt 2, JInt 3])])\<close>
  by (simp add: decoder_eval newline_def)

text \<open>
  C1 as stated fails, in three ways. The lines \<^verbatim>\<open>{"a":"x\<close> and \<^verbatim>\<open>y"}\<close> concatenate to a
  valid JSON text, but the buffer holds a line feed between them, inside the string:
  \<^verbatim>\<open>json.loads\<close> raises \<^verbatim>\<open>JSONDecodeError\<close> and nothing is yielded. A valid JSON text of
  more than \<open>MAX_BUFFER_SIZE\<close> characters, here a string on one line, is not yielded: the
  size test raises. And an integer of 4301 digits is a valid JSON text, which an
  interpreter with no limit on digits parses, but under the default limit \<^verbatim>\<open>json.loads\<close>
  raises \<^verbatim>\<open>ValueError\<close>, which line 260 does not catch: the loop ends with that error.
\<close>

theorem concatenation_not_enough:
  \<open>json_loads example_interpreter (concat [''{"a":"x'', ''y"}''])
     = Inr (JObject [([97], JString [120, 121])])
   \<and> fst (read_stdout example_interpreter initial [''{"a":"x'', ''y"}'']) = []
   \<and> json_loads example_interpreter (concat [huge_string])
       = Inr (JString (replicate MAX_BUFFER_SIZE 97))
   \<and> read_stdout example_interpreter initial [huge_string]
       = ([], Inl (SDKJSONDecodeError ''JSON buffer exceeded 52428800 bytes. Response too large.''))
   \<and> json_loads \<lparr>int_max_str_digits = 0, recursion_room = 900\<rparr> (concat [long_digits])
       = Inr (JInt (int_of_text long_digits))
   \<and> read_stdout example_interpreter initial [long_digits] = ([], Inl PyValueError)\<close>
proof -
  have j: \<open>json_loads example_interpreter (concat [''{"a":"x'', ''y"}''])
      = Inr (JObject [([97], JString [120, 121])])\<close>
    by (simp add: decoder_eval example_interpreter_def)
  have n: \<open>fst (read_stdout example_interpreter initial [''{"a":"x'', ''y"}'']) = []\<close>
    by (simp add: xy_feed1 xy_feed2 example_room)
  have h: "json_loads example_interpreter (concat [huge_string])
      = Inr (JString (replicate MAX_BUFFER_SIZE 97))"
    using huge_string_loads by simp
  have r: "read_stdout example_interpreter initial [huge_string]
       = ([], Inl (SDKJSONDecodeError ''JSON buffer exceeded 52428800 bytes. Response too large.''))"
    by (simp add: huge_string_feed)
  have d: "json_loads \<lparr>int_max_str_digits = 0, recursion_room = 900\<rparr> (concat [long_digits])
       = Inr (JInt (int_of_text long_digits))"
    using digits_loads [of 4301 "[]" "\<lparr>int_max_str_digits = 0, recursion_room = 900\<rparr>"]
    by (simp add: long_digits_def)
  have "feed example_interpreter initial (replicate 4301 (CHR ''1'') @ []) = Raise PyValueError"
    by (rule digits_feed) (simp_all add: MAX_BUFFER_SIZE_def example_interpreter_def)
  then have "feed example_interpreter initial long_digits = Raise PyValueError"
    by (simp add: long_digits_def)
  then have e: "read_stdout example_interpreter initial [long_digits] = ([], Inl PyValueError)"
    by simp
  show ?thesis by (intro conjI j n h r d e)
qed

text \<open>
  C1, amended. When the non-blank lines of a sequence, stripped and joined by single line
  feeds, form a text of at most \<open>MAX_BUFFER_SIZE\<close> characters on which \<^verbatim>\<open>json.loads\<close>
  returns a value in the running interpreter (it raises neither \<^verbatim>\<open>JSONDecodeError\<close> nor
  \<^verbatim>\<open>ValueError\<close> nor \<^verbatim>\<open>RecursionError\<close>), the loop yields that value exactly once: nothing is
  yielded while a non-blank line is still to come, and the value has been yielded as soon
  as only blank lines remain. Blank lines may stand anywhere in the sequence.
\<close>

theorem fragments_yield_once:
  assumes "json_loads I (join [newline] (filter (\<lambda>l. l \<noteq> []) (map strip lines))) = Inr v"
    and "length (join [newline] (filter (\<lambda>l. l \<noteq> []) (map strip lines))) \<le> MAX_BUFFER_SIZE"
  shows "read_stdout I initial lines = ([v], Inr initial)
    \<and> (\<forall>n. (\<exists>l \<in> set (drop n lines). strip l \<noteq> [])
          \<longrightarrow> fst (read_stdout I initial (take n lines)) = [])
    \<and> (\<forall>n. (\<forall>l \<in> set (drop n lines). strip l = [])
          \<longrightarrow> read_stdout I initial (take n lines) = ([v], Inr initial))"
  using assms by (rule frame_run_lines)

text \<open>
  The scenario of the specification, \<^verbatim>\<open>{"a":1,\<close>, \<^verbatim>\<open>"b":[1,2,\<close>, \<^verbatim>\<open>3]}\<close>, with a blank line
  after the first line and an empty one at the end.
\<close>

theorem fragments_yield_once_witness:
  \<open>json_loads example_interpreter (join [newline] (filter (\<lambda>l. l \<noteq> [])
       (map strip [''{"a":1,'', '' '', ''"b":[1,2,'', ''3]}'', []])))
     = Inr (JObject [([97], JInt 1), ([98], JArray [JInt 1, JInt 2, JInt 3])])
   \<and> read_stdout example_interpreter initial [''{"a":1,'', '' '', ''"b":[1,2,'', ''3]}'', []]
     = ([JObject [([97], JInt 1), ([98], JArray [JInt 1, JInt 2, JInt 3])]], Inr initial)
   \<and> fst (read_stdout example_interpreter initial [''{"a":1,'', '' '', ''"b":[1,2,'']) = []
   \<and> read_stdout example_interpreter initial [''{"a":1,'', '' '', ''"b":[1,2,'', ''3]}'']
     = ([JObject [([97], JInt 1), ([98], JArray [JInt 1, JInt 2, JInt 3])]], Inr initial)\<close>
proof -
  let ?lines = \<open>[''{"a":1,'', '' '', ''"b":[1,2,'', ''3]}'', []]\<close>
  let ?v = "JObject [([97], JInt 1), ([98], JArray [JInt 1, JInt 2, JInt 3])]"
  have h1: "json_loads example_interpreter
      (join [newline] (filter (\<lambda>l. l \<noteq> []) (map strip ?lines))) = Inr ?v"
    by (simp only: abc_filter abc_join) (rule abc_loads, simp add: example_interpreter_def)
  have h2: "length (join [newline] (filter (\<lambda>l. l \<noteq> []) (map strip ?lines))) \<le> MAX_BUFFER_SIZE"
    by (simp only: abc_filter abc_join) (simp add: MAX_BUFFER_SIZE_def)
  have t3: \<open>take 3 ?lines = [''{"a":1,'', '' '', ''"b":[1,2,'']\<close> by simp
  have t4: \<open>take 4 ?lines = [''{"a":1,'', '' '', ''"b":[1,2,'', ''3]}'']\<close> by simp
  have s3: \<open>strip ''3]}'' \<noteq> []\<close> by code_simp
  have s0: \<open>strip [] = []\<close> by code_simp
  have d3: "\<exists>l \<in> set (drop 3 ?lines). strip l \<noteq> []" using s3 by simp
  have d4: "\<forall>l \<in> set (drop 4 ?lines). strip l = []" using s0 by simp
  from fragments_yield_once [OF h1 h2]
  have a: "read_stdout example_interpreter initial ?lines = ([?v], Inr initial)"
    and b: "\<forall>n. (\<exists>l \<in> set (drop n ?lines). strip l \<noteq> [])
          \<longrightarrow> fst (read_stdout example_interpreter initial (take n ?lines)) = []"
    and c: "\<forall>n. (\<forall>l \<in> set (drop n ?lines). strip l = [])
          \<longrightarrow> read_stdout example_interpreter initial (take n ?lines) = ([?v], Inr initial)"
    by blast+
  from b d3 have "fst (read_stdout example_interpreter initial (take 3 ?lines)) = []" by blast
  then have b3: \<open>fst (read_stdout example_interpreter initial [''{"a":1,'', '' '', ''"b":[1,2,'']) = []\<close>
    by (simp only: t3)
  from c d4 have "read_stdout example_interpreter initial (take 4 ?lines) = ([?v], Inr initial)"
    by blast
  then have c4: \<open>read_stdout example_interpreter initial [''{"a":1,'', '' '', ''"b":[1,2,'', ''3]}'']
      = ([?v], Inr initial)\<close>
    by (simp only: t4)
  show ?thesis by (intro conjI h1 a b3 c4)
qed




text \<open>
  The tests on lengths in \<open>parse_array\<close> and \<open>parse_object\<close> never fail.
\<close>

lemma parse_value_length: "parse_value I room s = Inr (v, r) \<Longrightarrow> length r < length s"
proof -
  assume "parse_value I room s = Inr (v, r)"
  with parse_text [of I s] have "value_text s v r" by blast
  then obtain c where "s = c @ r" "c \<noteq> []" unfolding value_text_def by blast
  then show ?thesis by simp
qed

lemma parse_array_unguarded:
  "parse_array I room s =
     (case parse_value I room s of
        Inl e \<Rightarrow> Inl e
      | Inr (v, r) \<Rightarrow>
          (case skip_ws r of
             [] \<Rightarrow> Inl JSONDecodeError
           | d # r' \<Rightarrow>
               if d = CHR '']'' then Inr ([v], r')
               else if d = CHR '','' then
                 (case parse_array I room (skip_ws r') of
                    Inl e \<Rightarrow> Inl e
                  | Inr (vs, rest) \<Rightarrow> Inr (v # vs, rest))
               else Inl JSONDecodeError))"
proof (cases "parse_value I room s")
  case (Inl e)
  then show ?thesis by (subst parse_array.simps) simp
next
  case (Inr p)
  obtain v r where p: "p = (v, r)" by (cases p)
  with Inr have l: "length r < length s" by (simp add: parse_value_length)
  show ?thesis
  proof (cases "skip_ws r")
    case Nil
    with Inr p show ?thesis by (subst parse_array.simps) simp
  next
    case (Cons d r')
    then have "length r' < length s" using l skip_ws_Cons_length [of r d r'] by simp
    with Inr p Cons show ?thesis by (subst parse_array.simps) simp
  qed
qed

lemma parse_object_unguarded:
  "parse_object I room s =
     (case scanstring s of
        None \<Rightarrow> Inl JSONDecodeError
      | Some (key, r) \<Rightarrow>
          (case skip_ws r of
             [] \<Rightarrow> Inl JSONDecodeError
           | d # r1 \<Rightarrow>
               if d \<noteq> CHR '':'' then Inl JSONDecodeError
               else
                 (case parse_value I room (skip_ws r1) of
                    Inl e \<Rightarrow> Inl e
                  | Inr (v, r2) \<Rightarrow>
                      (case skip_ws r2 of
                         [] \<Rightarrow> Inl JSONDecodeError
                       | e # r3 \<Rightarrow>
                           if e = CHR ''}'' then Inr ([(key, v)], r3)
                           else if e = CHR '','' then
                             (case skip_ws r3 of
                                [] \<Rightarrow> Inl JSONDecodeError
                              | q # r4 \<Rightarrow>
                                  if q \<noteq> dquote then Inl JSONDecodeError
                                  else
                                    (case parse_object I room r4 of
                                       Inl e \<Rightarrow> Inl e
                                     | Inr (pairs, rest) \<Rightarrow> Inr ((key, v) # pairs, rest)))
                           else Inl JSONDecodeError))))"
proof -
  have g: "length r4 < length s"
    if "scanstring s = Some (key, r)" "skip_ws r = d # r1"
      "parse_value I room (skip_ws r1) = Inr (v, r2)" "skip_ws r2 = e # r3" "skip_ws r3 = q # r4"
    for key r d r1 v r2 e r3 q r4
    using that scanstring_length [of s key r] skip_ws_Cons_length [of r d r1]
      length_skip_ws [of r1] parse_value_length [of I room "skip_ws r1" v r2]
      skip_ws_Cons_length [of r2 e r3] skip_ws_Cons_length [of r3 q r4]
    by simp
  show ?thesis
    by (subst parse_object.simps) (auto split: option.splits list.splits sum.splits dest: g)
qed


end
